theory Spec2Isabelle
  imports Complex_Main "HOL-Library.AList"
begin

section \<open>Resolution-shell binning: \<open>HklData.setup_relion_binning\<close> (utils/hkl.py)\<close>

text \<open>
  The column \<open>df["bin"]\<close> is an integer list, one entry per record, in the order of the
  data frame after \<open>reset_index\<close>, so that a record is named by its position.
  \<open>bin_counts\<close> is the Python list of pairs \<open>[i_bin, g.index]\<close>, and \<open>modify_table\<close> is a
  Python dict: an association list that keeps the order of first insertion, read with
  \<open>map_of\<close> and written with \<open>AList.update\<close> (an existing key keeps its place).
  The calls of the logger in this function are left out: they do not change the data.
  The function is modelled for its default argument \<open>sort=False\<close>, which is how
  \<open>spa/fofc.py\<close> calls it.
\<close>

type_synonym bin_counts = "(int \<times> nat list) list"
type_synonym modify_table = "(int \<times> int) list"

text \<open>\<open>x.astype(int)\<close> on a float truncates toward zero.\<close>

definition astype_int :: "real \<Rightarrow> int" where
  "astype_int x = (if 0 \<le> x then \<lfloor>x\<rfloor> else \<lceil>x\<rceil>)"

text \<open>\<open>self.df["bin"] = (max_edge/self.d_spacings()+0.5).astype(int)\<close>\<close>

definition raw_bins :: "real \<Rightarrow> real list \<Rightarrow> int list" where
  "raw_bins max_edge d = map (\<lambda>x. astype_int (max_edge / x + 0.5)) d"

text \<open>\<open>self.df.groupby("bin", sort=True)\<close>: one group per value of the column that occurs,
  in ascending order, with the positions of its records.\<close>

definition groupby_bin :: "int list \<Rightarrow> bin_counts" where
  "groupby_bin bins =
     map (\<lambda>b. (b, filter (\<lambda>i. bins ! i = b) [0..<length bins])) (sort (remdups bins))"

text \<open>The first loop: the group of bin 0 (the DC component) is skipped.\<close>

definition initial_bin_counts :: "int list \<Rightarrow> bin_counts" where
  "initial_bin_counts bins = filter (\<lambda>(i_bin, g). i_bin \<noteq> 0) (groupby_bin bins)"

definition initial_bin_ranges :: "real list \<Rightarrow> bin_counts \<Rightarrow> (int \<times> real \<times> real) list" where
  "initial_bin_ranges d bc =
     map (\<lambda>(i_bin, g). (i_bin, Max (set (map (\<lambda>i. d ! i) g)), Min (set (map (\<lambda>i. d ! i) g)))) bc"

text \<open>\<open>Index.union\<close> of two pandas indexes: the sorted union without duplicates.\<close>

definition index_union :: "nat list \<Rightarrow> nat list \<Rightarrow> nat list" where
  "index_union a b = sort (remdups (a @ b))"

text \<open>The forward loop \<open>for i in range(len(bin_counts))\<close>, started at \<open>i = 0\<close>; the
  \<open>else: break\<close> branch returns the state.\<close>

function forward_pass :: "nat \<Rightarrow> bin_counts \<times> modify_table \<Rightarrow> bin_counts \<times> modify_table" where
  "forward_pass i (bc, mt) =
     (if i < length bc then
        (if length (snd (bc ! i)) < 10 \<and> int i < int (length bc) - 1
         then forward_pass (i + 1)
                (bc[i + 1 := (fst (bc ! (i + 1)), index_union (snd (bc ! (i + 1))) (snd (bc ! i)))],
                 AList.update (fst (bc ! i)) (fst (bc ! (i + 1))) mt)
         else (bc, mt))
      else (bc, mt))"
  by pat_completeness auto
termination
  by (relation "measure (\<lambda>(i, bc, mt). length bc - i)") auto

text \<open>The backward loop \<open>for i in reversed(range(len(bin_counts)))\<close>: \<open>backward_pass (Suc i)\<close>
  is the iteration at index \<open>i\<close>, so the loop is \<open>backward_pass (length bc)\<close>. The quotient
  \<open>len(..)/len(..)\<close> is Python's true division of two integers, which raises
  \<open>ZeroDivisionError\<close> on an empty lower shell: the result \<open>None\<close>.\<close>

fun backward_pass :: "nat \<Rightarrow> bin_counts \<times> modify_table \<Rightarrow> (bin_counts \<times> modify_table) option" where
  "backward_pass 0 (bc, mt) = Some (bc, mt)"
| "backward_pass (Suc i) (bc, mt) =
     (if i > 0 then
        (if length (snd (bc ! (i - 1))) = 0 then None
         else if real (length (snd (bc ! i))) / real (length (snd (bc ! (i - 1)))) < 0.5
         then backward_pass i
                (bc[i - 1 := (fst (bc ! (i - 1)), index_union (snd (bc ! (i - 1))) (snd (bc ! i)))],
                 AList.update (fst (bc ! i)) (fst (bc ! (i - 1))) mt)
         else Some (bc, mt))
      else Some (bc, mt))"

text \<open>One run of the inner loop \<open>for i_bin in modify_table\<close> of the chain resolution. The keys
  are fixed while the loop runs (only values are assigned), so the loop goes through the key
  list it started with. A key always has a value; the first \<open>None\<close> branch is never taken.\<close>

fun resolve_sweep :: "int list \<Rightarrow> modify_table \<times> bool \<Rightarrow> modify_table \<times> bool" where
  "resolve_sweep [] s = s"
| "resolve_sweep (i_bin # ks) (mt, flag) =
     (case map_of mt i_bin of
        None \<Rightarrow> resolve_sweep ks (mt, flag)
      | Some t \<Rightarrow>
          (case map_of mt t of
             None \<Rightarrow> resolve_sweep ks (mt, flag)
           | Some t' \<Rightarrow> resolve_sweep ks (AList.update i_bin t' mt, False)))"

text \<open>\<open>while True: ... if flag: break\<close>. The loop need not end on an arbitrary table
  (on \<open>{1: 2, 2: 1}\<close> it runs forever): not returning is the value \<open>None\<close>.\<close>

partial_function (option) resolve_chains :: "modify_table \<Rightarrow> modify_table option" where
  "resolve_chains mt =
     (case resolve_sweep (map fst mt) (mt, True) of
        (mt', flag) \<Rightarrow> if flag then Some mt' else resolve_chains mt')"

declare resolve_chains.simps [code]

text \<open>The last loop over \<open>modify_table\<close>, split into its two independent effects: the
  rewriting of \<open>df["bin"]\<close> with \<open>numpy.where\<close>, and the widening of \<open>bin_ranges\<close>.\<close>

definition rewrite_bins :: "modify_table \<Rightarrow> int list \<Rightarrow> int list" where
  "rewrite_bins mt bins =
     fold (\<lambda>i_bin bs. case map_of mt i_bin of
                        None \<Rightarrow> bs
                      | Some new_bin \<Rightarrow> map (\<lambda>b. if b = i_bin then new_bin else b) bs)
          (map fst mt) bins"

definition merge_ranges :: "modify_table \<Rightarrow> (int \<times> real \<times> real) list \<Rightarrow> (int \<times> real \<times> real) list" where
  "merge_ranges mt rg =
     fold (\<lambda>i_bin r. case (map_of mt i_bin) of
                       None \<Rightarrow> r
                     | Some new_bin \<Rightarrow>
                         (case (map_of r i_bin, map_of r new_bin) of
                            (Some (hi, lo), Some (hi', lo')) \<Rightarrow>
                              AList.update new_bin (max hi hi', min lo lo') r
                          | _ \<Rightarrow> r))
          (map fst mt) rg"

text \<open>The state the function leaves in the object: the rewritten column \<open>df["bin"]\<close>,
  \<open>_bin_and_indices\<close>, and the rows \<open>(i_bin, d_max, d_min)\<close> of \<open>binned_df\<close>; next to them
  the merge table as it was before and after the chain resolution.\<close>

record binning =
  df_bin :: "int list"
  bin_and_indices :: bin_counts
  binned_df :: "(int \<times> real \<times> real) list"
  table_raw :: modify_table
  table_resolved :: modify_table

definition merge_passes :: "int list \<Rightarrow> (bin_counts \<times> modify_table) option" where
  "merge_passes bins =
     (case forward_pass 0 (initial_bin_counts bins, []) of
        (bc, mt) \<Rightarrow> backward_pass (length bc) (bc, mt))"

definition setup_relion_binning :: "real \<Rightarrow> real list \<Rightarrow> binning option" where
  "setup_relion_binning max_edge d =
     (let bins = raw_bins max_edge d in
      case merge_passes bins of
        None \<Rightarrow> None
      | Some (bc, mt) \<Rightarrow>
          (case resolve_chains mt of
             None \<Rightarrow> None
           | Some mt' \<Rightarrow>
               (let rg = merge_ranges mt' (initial_bin_ranges d (initial_bin_counts bins));
                    kept = filter (\<lambda>(i_bin, indices). map_of mt' i_bin = None) bc
                in Some \<lparr> df_bin = rewrite_bins mt' bins,
                          bin_and_indices = kept,
                          binned_df = map (\<lambda>(i_bin, indices). (i_bin, the (map_of rg i_bin))) kept,
                          table_raw = mt,
                          table_resolved = mt' \<rparr>)))"

section \<open>Numbers of the Fo-Fc pipeline (spa/fofc.py)\<close>

text \<open>
  The arithmetic of numpy on floats is modelled over the exact real and complex numbers,
  extended by one value \<open>NaN\<close> for a result that is not a finite number: it comes from a
  division by zero and from the square root of a negative number, and every operation
  passes it on. Rounding and overflow are not modelled.
\<close>

datatype 'a fl = Num 'a | NaN

instantiation fl :: (plus) plus
begin
fun plus_fl :: "'a fl \<Rightarrow> 'a fl \<Rightarrow> 'a fl" where
  "plus_fl (Num a) (Num b) = Num (a + b)"
| "plus_fl _ _ = NaN"
instance ..
end

instantiation fl :: (minus) minus
begin
fun minus_fl :: "'a fl \<Rightarrow> 'a fl \<Rightarrow> 'a fl" where
  "minus_fl (Num a) (Num b) = Num (a - b)"
| "minus_fl _ _ = NaN"
instance ..
end

instantiation fl :: (times) times
begin
fun times_fl :: "'a fl \<Rightarrow> 'a fl \<Rightarrow> 'a fl" where
  "times_fl (Num a) (Num b) = Num (a * b)"
| "times_fl _ _ = NaN"
instance ..
end

instantiation fl :: (division_ring) inverse
begin
fun divide_fl :: "'a fl \<Rightarrow> 'a fl \<Rightarrow> 'a fl" where
  "divide_fl (Num a) (Num b) = (if b = 0 then NaN else Num (a / b))"
| "divide_fl _ _ = NaN"
fun inverse_fl :: "'a fl \<Rightarrow> 'a fl" where
  "inverse_fl (Num b) = (if b = 0 then NaN else Num (inverse b))"
| "inverse_fl _ = NaN"
instance ..
end

text \<open>A real scalar that meets a complex array is promoted to a complex number.\<close>

definition cplx :: "real fl \<Rightarrow> complex fl" where
  "cplx x = map_fl complex_of_real x"

fun np_sqrt :: "real fl \<Rightarrow> real fl" where
  "np_sqrt (Num x) = (if x < 0 then NaN else Num (sqrt x))"
| "np_sqrt NaN = NaN"

definition np_exp :: "real fl \<Rightarrow> real fl" where
  "np_exp x = map_fl exp x"

text \<open>\<open>numpy.abs(z)**2\<close> of a complex number.\<close>

definition abs2 :: "complex fl \<Rightarrow> real fl" where
  "abs2 z = map_fl (\<lambda>c. (cmod c)\<^sup>2) z"

definition fl_sum :: "'a::{zero,plus} fl list \<Rightarrow> 'a fl" where
  "fl_sum xs = foldr (+) xs (Num 0)"

text \<open>\<open>numpy.average\<close>: the mean of an empty array is not a number.\<close>

definition np_average :: "real fl list \<Rightarrow> real fl" where
  "np_average xs = fl_sum xs / Num (real (length xs))"

definition np_mean :: "complex list \<Rightarrow> complex fl" where
  "np_mean xs = Num (sum_list xs) / Num (of_nat (length xs))"

text \<open>\<open>numpy.var\<close> and \<open>numpy.std\<close> of a complex array: the mean of \<open>|x - mean(x)|**2\<close> and
  its square root.\<close>

definition np_var :: "complex list \<Rightarrow> real fl" where
  "np_var xs = np_average (map (\<lambda>x. abs2 (Num x - np_mean xs)) xs)"

definition np_std :: "complex list \<Rightarrow> real fl" where
  "np_std xs = np_sqrt (np_var xs)"

text \<open>\<open>numpy.real(numpy.corrcoef(x, y)[1,0])\<close>: the covariance of \<open>y\<close> and \<open>x\<close> with the
  normalisation \<open>N - 1\<close>, divided by the two standard deviations, the real part clipped to
  \<open>[-1, 1]\<close>.\<close>

definition np_cov :: "complex list \<Rightarrow> complex list \<Rightarrow> complex fl" where
  "np_cov a b =
     fl_sum (map2 (\<lambda>u v. (Num u - np_mean a) * map_fl cnj (Num v - np_mean b)) a b)
       / Num (of_nat (length a) - 1)"

definition np_corrcoef :: "complex list \<Rightarrow> complex list \<Rightarrow> real fl" where
  "np_corrcoef x y =
     map_fl (\<lambda>c. max (- 1) (min 1 (Re c)))
       (np_cov y x / cplx (np_sqrt (map_fl Re (np_cov y y))) / cplx (np_sqrt (map_fl Re (np_cov x x))))"

text \<open>Python's \<open>max(0, x)\<close> returns \<open>x\<close> only when \<open>x > 0\<close> holds, so it is 0 on a NaN.\<close>

fun py_max0 :: "real fl \<Rightarrow> real fl" where
  "py_max0 (Num x) = Num (if x > 0 then x else 0)"
| "py_max0 NaN = Num 0"

text \<open>\<open>n_fo < 1e-10 or n_fo != n_fo\<close>\<close>

fun skip_norm :: "real fl \<Rightarrow> bool" where
  "skip_norm (Num x) = (x < 1 / 10 ^ 10)"
| "skip_norm NaN = True"

section \<open>The data frame\<close>

text \<open>
  \<open>hkldata.df\<close> is a list of rows: the Miller index, the named complex columns
  (\<open>F_map1\<close>, \<open>F_map2\<close>, \<open>FP\<close>, \<open>FC\<close>), the resolution \<open>d\<close> and the shell id \<open>bin\<close>.
  \<open>hkldata.binned_df\<close> is the list of its rows \<open>(i_bin, d_max, d_min)\<close> together with its
  statistics columns, each a function of the row label \<open>i_bin\<close>.
\<close>

type_synonym miller = "int \<times> int \<times> int"

record row =
  r_hkl :: miller
  r_cols :: "(string \<times> complex) list"
  r_d :: real
  r_bin :: int

record hkldata =
  hk_df :: "row list"
  hk_shells :: "(int \<times> real \<times> real) list"
  hk_var_noise :: "int \<Rightarrow> real fl"
  hk_FSCfull :: "int \<Rightarrow> real fl"
  hk_D :: "int \<Rightarrow> real fl"
  hk_S :: "int \<Rightarrow> real fl"

text \<open>\<open>numpy.array(hkldata.df.FP)\<close> and the like: a column as an array.\<close>

definition column :: "string \<Rightarrow> row list \<Rightarrow> complex list" where
  "column l df = map (\<lambda>r. the (map_of (r_cols r) l)) df"

text \<open>\<open>a[sel]\<close> for a boolean mask \<open>sel\<close>, and the assignment \<open>a[sel] = vals\<close>.\<close>

definition masked :: "'a list \<Rightarrow> bool list \<Rightarrow> 'a list" where
  "masked xs sel = map fst (filter snd (zip xs sel))"

fun mask_assign :: "'a list \<Rightarrow> bool list \<Rightarrow> 'a list \<Rightarrow> 'a list" where
  "mask_assign (a # as) (True # ss) (v # vs) = v # mask_assign as ss vs"
| "mask_assign (a # as) (False # ss) vs = a # mask_assign as ss vs"
| "mask_assign as ss vs = as"

text \<open>\<open>sel = i_bin == hkldata.df.bin\<close>\<close>

definition bin_sel :: "int \<Rightarrow> hkldata \<Rightarrow> bool list" where
  "bin_sel i_bin hk = map (\<lambda>r. i_bin = r_bin r) (hk_df hk)"

text \<open>Modelled from the spec: \<open>HklData.bin_and_limits\<close> is called by spa/fofc.py and is not
  defined in utils/hkl.py. By the spec the shells are processed in ascending id order, one
  row per surviving shell with its resolution bounds: the rows \<open>(i_bin, d_max, d_min)\<close> of
  \<open>binned_df\<close>.\<close>

definition bin_and_limits :: "hkldata \<Rightarrow> (int \<times> real \<times> real) list" where
  "bin_and_limits hk = hk_shells hk"

text \<open>What the functions write to the logger, and the rows of the file \<open>Fstats.dat\<close>.\<close>

datatype log_line =
    Noise_Header
  | Noise_Skip int nat
  | Noise_Row int nat real real "real fl" "real fl"
  | Maps_Start
  | Maps_Skip int "real fl" "real fl"
  | Maps_Row int "real fl" "real fl" "real fl" "real fl" "real fl" "real fl"
  | Maps_Finished

record fstats_row =
  fs_bin :: int
  fs_n :: nat
  fs_d_max :: real
  fs_d_min :: real
  fs_Fo :: "real fl"
  fs_Fc :: "real fl"
  fs_FSC_model :: "real fl"
  fs_FSC_full :: "real fl"
  fs_D :: "real fl"
  fs_S :: "real fl"
  fs_N :: "real fl"

section \<open>The class \<open>HklData\<close>, \<open>merge_asu_data\<close> and \<open>mask_and_fft_maps\<close>\<close>

text \<open>
  The attributes \<open>df\<close> and \<open>binned_df\<close> of an \<open>HklData\<close> object hold whatever the constructor
  is given: \<open>None\<close>, a Python bool or a data frame. The constructor of utils/hkl.py is
  \<open>__init__(self, cell, sg, df=None, binned_df=None)\<close>; the cell and the space group are not
  modelled, so \<open>HklData df bdf\<close> takes the third and the fourth positional argument.
  The functions \<open>calc_noise_var\<close>, \<open>calc_D_and_S\<close> and \<open>calc_maps\<close> below are modelled on an
  object whose \<open>df\<close> is a data frame (the record \<open>hkldata\<close>).
\<close>

datatype py_error = TypeError | AttributeError | AssertionError | IndexError | Duplicated_label

datatype df_value = Py_None | Py_Bool bool | Frame "row list"

record hkl_object =
  ho_df :: df_value
  ho_binned_df :: df_value

definition HklData :: "df_value \<Rightarrow> df_value \<Rightarrow> hkl_object" where
  "HklData df bdf = \<lparr> ho_df = df, ho_binned_df = bdf \<rparr>"

definition df_from_asu_data :: "(miller \<times> complex) list \<Rightarrow> string \<Rightarrow> row list" where
  "df_from_asu_data asu_data label =
     map (\<lambda>(h, v). \<lparr> r_hkl = h, r_cols = [(label, v)], r_d = 0, r_bin = 0 \<rparr>) asu_data"

text \<open>\<open>df.merge(df_tmp)\<close> is the inner join of pandas on the common columns \<open>H, K, L\<close>, in the
  order of the left frame; \<open>label in df\<close> asks for a column of that name.\<close>

definition df_merge :: "row list \<Rightarrow> row list \<Rightarrow> row list" where
  "df_merge df df_tmp =
     concat (map (\<lambda>r. map (\<lambda>r'. r \<lparr> r_cols := r_cols r @ r_cols r' \<rparr>)
                          (filter (\<lambda>r'. r_hkl r' = r_hkl r) df_tmp)) df)"

definition has_column :: "string \<Rightarrow> row list \<Rightarrow> bool" where
  "has_column label df =
     (label \<in> set ([''H'', ''K'', ''L''] @ concat (map (\<lambda>r. map fst (r_cols r)) df)))"

text \<open>\<open>HklData.merge_asu_data(asu_data, label)\<close> with the default \<open>common_only=True\<close>. The test
  \<open>self.df is not None and label in self.df\<close> raises \<open>TypeError\<close> when \<open>self.df\<close> is a bool
  (a bool is not iterable).\<close>

definition merge_asu_data ::
    "(miller \<times> complex) list \<Rightarrow> string \<Rightarrow> hkl_object \<Rightarrow> py_error + hkl_object" where
  "merge_asu_data asu_data label self =
     (case ho_df self of
        Py_Bool b \<Rightarrow> Inl TypeError
      | Frame df \<Rightarrow>
          if has_column label df then Inl Duplicated_label
          else Inr (self \<lparr> ho_df := Frame (df_merge df (df_from_asu_data asu_data label)) \<rparr>)
      | Py_None \<Rightarrow> Inr (self \<lparr> ho_df := Frame (df_from_asu_data asu_data label) \<rparr>))"

text \<open>\<open>hkldata.df["FP"] = (hkldata.df.F_map1 + hkldata.df.F_map2)/2.\<close>; a bool and \<open>None\<close>
  have no attribute \<open>F_map1\<close>.\<close>

definition add_FP :: "row \<Rightarrow> row" where
  "add_FP r = r \<lparr> r_cols := r_cols r @
       [(''FP'', (the (map_of (r_cols r) ''F_map1'') + the (map_of (r_cols r) ''F_map2'')) / 2)] \<rparr>"

definition assign_FP :: "hkl_object \<Rightarrow> py_error + hkl_object" where
  "assign_FP self =
     (case ho_df self of
        Frame df \<Rightarrow> Inr (self \<lparr> ho_df := Frame (map add_FP df) \<rparr>)
      | Py_Bool b \<Rightarrow> Inl AttributeError
      | Py_None \<Rightarrow> Inl AttributeError)"

text \<open>
  \<open>mask_and_fft_maps\<close>: the masking and the Fourier transform belong to gemmi, so the function
  is modelled from the list \<open>asus\<close> on, each element the reflections \<open>(hkl, value)\<close> of one map.
  Both branches build the object with \<open>HklData(asus[0].unit_cell, asus[0].spacegroup, False, df)\<close>:
  the third positional argument is \<open>False\<close> and the frame is the fourth. The
  \<open>assert len(maps) <= 2\<close> fails on more than two maps and \<open>asus[0]\<close> raises on none.
\<close>

fun mask_and_fft_maps :: "(miller \<times> complex) list list \<Rightarrow> py_error + hkl_object" where
  "mask_and_fft_maps [a1, a2] =
     (case merge_asu_data a2 ''F_map2'' (HklData (Py_Bool False) (Frame (df_from_asu_data a1 ''F_map1''))) of
        Inl e \<Rightarrow> Inl e
      | Inr hkldata \<Rightarrow> assign_FP hkldata)"
| "mask_and_fft_maps [a1] = Inr (HklData (Py_Bool False) (Frame (df_from_asu_data a1 ''FP'')))"
| "mask_and_fft_maps [] = Inl IndexError"
| "mask_and_fft_maps (a1 # a2 # a3 # as) = Inl AssertionError"

section \<open>\<open>calc_noise_var\<close>\<close>

definition noise_step ::
    "int \<times> real \<times> real \<Rightarrow> hkldata \<times> log_line list \<Rightarrow> hkldata \<times> log_line list" where
  "noise_step sh st =
     (case (sh, st) of ((i_bin, bin_d_max, bin_d_min), (hk, lg)) \<Rightarrow>
       (let sel = bin_sel i_bin hk;
            sel1 = masked (column ''F_map1'' (hk_df hk)) sel;
            sel2 = masked (column ''F_map2'' (hk_df hk)) sel
        in if length sel1 < 3 then (hk, lg @ [Noise_Skip i_bin (length sel1)])
           else
             (let fsc = np_corrcoef sel1 sel2;
                  varn = np_var (map2 (-) sel1 sel2) / Num 4
              in (hk \<lparr> hk_var_noise := (hk_var_noise hk)(i_bin := varn),
                       hk_FSCfull := (hk_FSCfull hk)(i_bin := Num 2 * fsc / (Num 1 + fsc)) \<rparr>,
                  lg @ [Noise_Row i_bin (length sel1) bin_d_max bin_d_min fsc varn]))))"

definition calc_noise_var :: "hkldata \<Rightarrow> hkldata \<times> log_line list" where
  "calc_noise_var hk =
     fold noise_step (bin_and_limits hk)
       (hk \<lparr> hk_var_noise := (\<lambda>_. Num 0), hk_FSCfull := (\<lambda>_. Num 0) \<rparr>, [Noise_Header])"

section \<open>\<open>calc_D_and_S\<close>\<close>

definition D_and_S_step ::
    "bool \<Rightarrow> int \<times> real \<times> real \<Rightarrow> hkldata \<times> fstats_row list \<Rightarrow> hkldata \<times> fstats_row list" where
  "D_and_S_step has_halfmaps sh st =
     (case (sh, st) of ((i_bin, bin_d_max, bin_d_min), (hk, ofs)) \<Rightarrow>
       (let sel = bin_sel i_bin hk;
            Fo = masked (column ''FP'' (hk_df hk)) sel;
            Fc = masked (column ''FC'' (hk_df hk)) sel;
            fsc = np_corrcoef Fo Fc;
            hk1 = hk \<lparr> hk_D := (hk_D hk)(i_bin :=
                        Num (sum_list (map2 (\<lambda>fo fc. Re (fo * cnj fc)) Fo Fc))
                          / Num (sum_list (map (\<lambda>fc. (cmod fc)\<^sup>2) Fc))) \<rparr>;
            varn = (if has_halfmaps then hk_var_noise hk1 i_bin else Num 0);
            fsc_full = (if has_halfmaps then hk_FSCfull hk1 i_bin else Num 0);
            hk2 = (if has_halfmaps
                   then hk1 \<lparr> hk_S := (hk_S hk1)(i_bin :=
                          py_max0 (np_average (map2 (\<lambda>fo fc. abs2 (Num fo - cplx (hk_D hk1 i_bin) * Num fc)) Fo Fc)
                                     - varn)) \<rparr>
                   else hk1)
        in (hk2, ofs @ [\<lparr> fs_bin = i_bin, fs_n = length Fo, fs_d_max = bin_d_max, fs_d_min = bin_d_min,
                          fs_Fo = np_average (map (\<lambda>fo. Num (cmod fo)) Fo),
                          fs_Fc = np_average (map (\<lambda>fc. Num (cmod fc)) Fc),
                          fs_FSC_model = fsc, fs_FSC_full = fsc_full,
                          fs_D = hk_D hk2 i_bin, fs_S = hk_S hk2 i_bin, fs_N = varn \<rparr>])))"

definition calc_D_and_S :: "bool \<Rightarrow> hkldata \<Rightarrow> hkldata \<times> fstats_row list" where
  "calc_D_and_S has_halfmaps hk =
     fold (D_and_S_step has_halfmaps) (bin_and_limits hk)
       (hk \<lparr> hk_D := (\<lambda>_. Num 0), hk_S := (\<lambda>_. Num 0) \<rparr>, [])"

section \<open>\<open>calc_maps\<close>\<close>

text \<open>\<open>tmp\<close> is the dict of the output arrays; \<open>tmp[l][sel] = vals\<close> is \<open>put\<close>. Every label
  that the loop writes is a key of \<open>tmp\<close>, so the \<open>None\<close> branch of \<open>put\<close> is never taken.\<close>

type_synonym outputs = "string \<rightharpoonup> complex fl list"

definition put :: "string \<Rightarrow> bool list \<Rightarrow> complex fl list \<Rightarrow> outputs \<Rightarrow> outputs" where
  "put l sel vals tmp = (case tmp l of None \<Rightarrow> tmp | Some a \<Rightarrow> tmp(l \<mapsto> mask_assign a sel vals))"

definition maps_labs :: "real option \<Rightarrow> bool \<Rightarrow> string list" where
  "maps_labs B has_halfmaps =
     (if has_halfmaps
      then [''DELFWT'', ''FWT'', ''DELFWT_noscale'', ''FWT_noscale'']
             @ (if B \<noteq> None then [''DELFWT_b0'', ''FWT_b0''] else [])
      else [''DELFWT''])"

definition maps_step ::
    "real option \<Rightarrow> bool \<Rightarrow> hkldata \<Rightarrow> int \<times> real \<times> real \<Rightarrow> outputs \<times> log_line list
       \<Rightarrow> outputs \<times> log_line list" where
  "maps_step B has_halfmaps hk sh st =
     (case (sh, st) of ((i_bin, bin_d_max, bin_d_min), (tmp, lg)) \<Rightarrow>
       (let sel = bin_sel i_bin hk;
            Fo = map Num (masked (column ''FP'' (hk_df hk)) sel);
            Fc = map Num (masked (column ''FC'' (hk_df hk)) sel);
            D = hk_D hk i_bin
        in if \<not> has_halfmaps
           then (put ''DELFWT'' sel (map2 (\<lambda>fo fc. fo - cplx D * fc) Fo Fc) tmp, lg)
           else
             (let S = hk_S hk i_bin;
                  FSCfull = hk_FSCfull hk i_bin;
                  varn = hk_var_noise hk i_bin;
                  delfwt = map2 (\<lambda>fo fc. (fo - cplx D * fc) * cplx S / cplx (S + varn)) Fo Fc;
                  fwt = map2 (\<lambda>fo fc. (fo * cplx S + cplx varn * cplx D * fc) / cplx (S + varn)) Fo Fc;
                  tmp1 = put ''FWT_noscale'' sel fwt (put ''DELFWT_noscale'' sel delfwt tmp);
                  sig_fo = np_std (masked (column ''FP'' (hk_df hk)) sel);
                  n_fo = sig_fo * np_sqrt FSCfull
              in if skip_norm n_fo then (tmp1, lg @ [Maps_Skip i_bin sig_fo FSCfull])
                 else
                   (let lab_suf = (if B = None then [] else ''_b0'');
                        tmp2 = put (''FWT'' @ lab_suf) sel (map (\<lambda>x. x / cplx n_fo) fwt)
                                 (put (''DELFWT'' @ lab_suf) sel (map (\<lambda>x. x / cplx n_fo) delfwt) tmp1)
                    in case B of
                         None \<Rightarrow> (tmp2, lg)
                       | Some b \<Rightarrow>
                           (let s2 = map (\<lambda>d. Num 1 / Num (d\<^sup>2)) (masked (map r_d (hk_df hk)) sel);
                                k = map (\<lambda>s. np_exp (Num (- b) * s / Num 4)) s2;
                                k2 = map (\<lambda>s. np_exp (Num (- b) * s / Num 2)) s2;
                                fsc_l = map (\<lambda>q. q * FSCfull / (Num 1 + (q - Num 1) * FSCfull)) k2;
                                S_l = map (\<lambda>q. S * q) k2;
                                delfwt_b = map (\<lambda>(fo, fc, kk, sl).
                                     (fo - cplx D * fc) * cplx S * cplx kk / cplx (sl + varn) / cplx n_fo)
                                   (zip Fo (zip Fc (zip k S_l)));
                                fwt_b = map (\<lambda>(fo, fc, kk, sl).
                                     (fo * cplx sl + cplx varn * cplx D * fc) / cplx (sl + varn) / cplx n_fo / cplx kk)
                                   (zip Fo (zip Fc (zip k S_l)))
                            in (put ''FWT'' sel fwt_b (put ''DELFWT'' sel delfwt_b tmp2),
                                lg @ [Maps_Row i_bin n_fo sig_fo (np_average fsc_l) (np_average k)
                                         (np_average (map (\<lambda>z. map_fl cmod z) fwt_b))
                                         (np_average (map (\<lambda>z. map_fl cmod z) delfwt_b))]))))))"

text \<open>The function returns \<open>labs\<close>; the columns \<open>hkldata.df[l]\<close> it adds are \<open>tmp[l]\<close>.\<close>

definition calc_maps :: "real option \<Rightarrow> bool \<Rightarrow> hkldata \<Rightarrow> string list \<times> outputs \<times> log_line list" where
  "calc_maps B has_halfmaps hk =
     (let labs = maps_labs B has_halfmaps;
          tmp = map_of (map (\<lambda>l. (l, replicate (length (hk_df hk)) (Num 0))) labs);
          (tmp', lg) = fold (maps_step B has_halfmaps hk) (bin_and_limits hk) (tmp, [Maps_Start])
      in (labs, tmp', lg @ [Maps_Finished]))"

section \<open>Predicates used in the proofs about the binning\<close>

text \<open>A merge table is resolved when no target is a key; \<open>towards c\<close> says that every entry
  moves its key strictly closer to the shell id \<open>c\<close> without crossing it, and \<open>dist_sum\<close>
  adds up the distances of the targets from \<open>c\<close>. \<open>shells_ok\<close> holds of the shell list
  that \<open>groupby\<close> produces: ascending ids, every shell non-empty.
  \<open>fwd_steps i k\<close> describes a run of the forward loop that starts at index \<open>i\<close> and stops
  at index \<open>k\<close>; \<open>bwd_steps i m\<close> a run of the backward loop from \<open>i\<close> down to \<open>m\<close>.\<close>

definition resolved :: "modify_table \<Rightarrow> bool" where
  "resolved mt = (\<forall>k\<in>set (map fst mt). \<forall>t. map_of mt k = Some t \<longrightarrow> map_of mt t = None)"

definition towards :: "int \<Rightarrow> modify_table \<Rightarrow> bool" where
  "towards c mt = (\<forall>k t. map_of mt k = Some t \<longrightarrow> (k < t \<and> t \<le> c) \<or> (c \<le> t \<and> t < k))"

definition dist_sum :: "int \<Rightarrow> modify_table \<Rightarrow> nat" where
  "dist_sum c mt = sum_list (map (\<lambda>(k, t). nat \<bar>t - c\<bar>) mt)"

definition shells_ok :: "bin_counts \<Rightarrow> bool" where
  "shells_ok bc = (sorted_wrt (<) (map fst bc) \<and> (\<forall>(b, g)\<in>set bc. g \<noteq> [] \<and> distinct g))"

definition upto :: "int \<Rightarrow> modify_table \<Rightarrow> bool" where
  "upto c mt = (\<forall>k t. map_of mt k = Some t \<longrightarrow> k < t \<and> t \<le> c)"

definition pass_inv :: "nat \<Rightarrow> bin_counts \<Rightarrow> bool" where
  "pass_inv k bc = (shells_ok bc \<and> k < length bc \<and>
       (0 < k \<longrightarrow> length (snd (bc ! (k - 1))) \<le> length (snd (bc ! k))))"



text \<open>\<open>keys_ok\<close>: the keys of the merge table are distinct and are shell ids of the list.\<close>

definition keys_ok :: "bin_counts \<Rightarrow> modify_table \<Rightarrow> bool" where
  "keys_ok bc mt = (distinct (map fst mt) \<and> set (map fst mt) \<subseteq> set (map fst bc))"

section \<open>Predicates and an example used in the proofs about the pipeline\<close>

text \<open>\<open>shell_col l b df\<close> is the column \<open>l\<close> restricted to the records of shell \<open>b\<close>.
  \<open>noise_post\<close> and \<open>D_and_S_post\<close> say what one iteration of the loops of
  \<open>calc_noise_var\<close> and \<open>calc_D_and_S\<close> leaves in the row \<open>b\<close> of \<open>binned_df\<close>.
  \<open>hk_example\<close> is a data set of four reflections in two shells.\<close>

definition shell_col :: "string \<Rightarrow> int \<Rightarrow> row list \<Rightarrow> complex list" where
  "shell_col l b df = masked (column l df) (map (\<lambda>r. b = r_bin r) df)"

definition noise_post :: "hkldata \<Rightarrow> int \<Rightarrow> hkldata \<times> log_line list \<Rightarrow> bool" where
  "noise_post hk b st =
     (let sel1 = shell_col ''F_map1'' b (hk_df hk); sel2 = shell_col ''F_map2'' b (hk_df hk);
          fsc = np_corrcoef sel1 sel2
      in (3 \<le> length sel1 \<longrightarrow>
             hk_var_noise (fst st) b = np_var (map2 (-) sel1 sel2) / Num 4
           \<and> hk_FSCfull (fst st) b = Num 2 * fsc / (Num 1 + fsc))
       \<and> (length sel1 < 3 \<longrightarrow>
             hk_var_noise (fst st) b = hk_var_noise hk b
           \<and> hk_FSCfull (fst st) b = hk_FSCfull hk b
           \<and> Noise_Skip b (length sel1) \<in> set (snd st)))"

definition D_and_S_post :: "bool \<Rightarrow> hkldata \<Rightarrow> int \<Rightarrow> hkldata \<Rightarrow> bool" where
  "D_and_S_post hh hk b hk' =
     (let Fo = shell_col ''FP'' b (hk_df hk); Fc = shell_col ''FC'' b (hk_df hk)
      in hk_D hk' b = Num (sum_list (map2 (\<lambda>fo fc. Re (fo * cnj fc)) Fo Fc))
                        / Num (sum_list (map (\<lambda>fc. (cmod fc)\<^sup>2) Fc))
       \<and> hk_S hk' b =
           (if hh then py_max0 (np_average (map2 (\<lambda>fo fc. abs2 (Num fo - cplx (hk_D hk' b) * Num fc)) Fo Fc)
                                 - hk_var_noise hk b)
            else hk_S hk b))"

definition mk_row :: "complex \<Rightarrow> complex \<Rightarrow> complex \<Rightarrow> complex \<Rightarrow> real \<Rightarrow> int \<Rightarrow> row" where
  "mk_row a b fo fc d i =
     \<lparr> r_hkl = (0, 0, i), r_cols = [(''F_map1'', a), (''F_map2'', b), (''FP'', fo), (''FC'', fc)],
       r_d = d, r_bin = i \<rparr>"

definition hk_example :: hkldata where
  "hk_example =
     \<lparr> hk_df = [mk_row 3 1 2 1 2 1, mk_row 1 1 1 1 2 1, mk_row 0 2 1 1 2 1, mk_row 5 5 5 2 1 2],
       hk_shells = [(1, 2, 2), (2, 1, 1)],
       hk_var_noise = (\<lambda>_. Num (1 / 9)), hk_FSCfull = (\<lambda>_. Num 1),
       hk_D = (\<lambda>_. Num 0), hk_S = (\<lambda>_. Num 0) \<rparr>"

text \<open>For the proofs about \<open>calc_maps\<close>: \<open>rank sel i\<close> is the position of record \<open>i\<close> among the
  records that the mask selects; \<open>at_rec i tmp\<close> is the row \<open>i\<close> of the output arrays and
  \<open>rec_maps\<close> what one iteration of the loop does to that row when record \<open>i\<close> is in the
  shell; \<open>raw_delfwt\<close>, \<open>raw_fwt\<close> and \<open>norm_fo\<close> name the unnormalised coefficients of a
  record and the normalisation factor of a shell. \<open>hk_perfect\<close> is a shell of three
  reflections whose two half maps agree and whose model is exact; \<open>hk_maps_example\<close> has a
  shell of two reflections and a shell of one.\<close>

definition rank :: "bool list \<Rightarrow> nat \<Rightarrow> nat" where
  "rank sel i = length (filter id (take i sel))"

definition at_rec :: "nat \<Rightarrow> outputs \<Rightarrow> (string \<rightharpoonup> complex fl)" where
  "at_rec i tmp = (\<lambda>l. map_option (\<lambda>a. a ! i) (tmp l))"

definition wf_out :: "nat \<Rightarrow> outputs \<Rightarrow> bool" where
  "wf_out n tmp = (\<forall>l a. tmp l = Some a \<longrightarrow> length a = n)"

definition put1 :: "string \<Rightarrow> complex fl \<Rightarrow> (string \<rightharpoonup> complex fl) \<Rightarrow> (string \<rightharpoonup> complex fl)" where
  "put1 l v m = (case m l of None \<Rightarrow> m | Some u \<Rightarrow> m(l \<mapsto> v))"

definition rec_maps :: "real option \<Rightarrow> bool \<Rightarrow> hkldata \<Rightarrow> int \<Rightarrow> nat
     \<Rightarrow> (string \<rightharpoonup> complex fl) \<Rightarrow> (string \<rightharpoonup> complex fl)" where
  "rec_maps B hh hk b i m =
     (let fo = Num (column ''FP'' (hk_df hk) ! i);
          fc = Num (column ''FC'' (hk_df hk) ! i);
          D = hk_D hk b
      in if \<not> hh then put1 ''DELFWT'' (fo - cplx D * fc) m
         else
           (let S = hk_S hk b;
                FSCfull = hk_FSCfull hk b;
                varn = hk_var_noise hk b;
                delfwt = (fo - cplx D * fc) * cplx S / cplx (S + varn);
                fwt = (fo * cplx S + cplx varn * cplx D * fc) / cplx (S + varn);
                m1 = put1 ''FWT_noscale'' fwt (put1 ''DELFWT_noscale'' delfwt m);
                n_fo = np_std (masked (column ''FP'' (hk_df hk)) (bin_sel b hk)) * np_sqrt FSCfull
            in if skip_norm n_fo then m1
               else
                 (let lab_suf = (if B = None then [] else ''_b0'');
                      m2 = put1 (''FWT'' @ lab_suf) (fwt / cplx n_fo)
                             (put1 (''DELFWT'' @ lab_suf) (delfwt / cplx n_fo) m1)
                  in case B of
                       None \<Rightarrow> m2
                     | Some bb \<Rightarrow>
                         (let s2 = Num 1 / Num ((r_d (hk_df hk ! i))\<^sup>2);
                              k = np_exp (Num (- bb) * s2 / Num 4);
                              k2 = np_exp (Num (- bb) * s2 / Num 2);
                              S_l = S * k2
                          in put1 ''FWT''
                               ((fo * cplx S_l + cplx varn * cplx D * fc) / cplx (S_l + varn) / cplx n_fo / cplx k)
                               (put1 ''DELFWT''
                                  ((fo - cplx D * fc) * cplx S * cplx k / cplx (S_l + varn) / cplx n_fo) m2)))))"

definition zeros_rec :: "string list \<Rightarrow> (string \<rightharpoonup> complex fl)" where
  "zeros_rec labs = (\<lambda>l. if l \<in> set labs then Some (Num 0) else None)"

definition raw_delfwt :: "hkldata \<Rightarrow> int \<Rightarrow> nat \<Rightarrow> complex fl" where
  "raw_delfwt hk b i =
     (Num (column ''FP'' (hk_df hk) ! i) - cplx (hk_D hk b) * Num (column ''FC'' (hk_df hk) ! i))
       * cplx (hk_S hk b) / cplx (hk_S hk b + hk_var_noise hk b)"

definition raw_fwt :: "hkldata \<Rightarrow> int \<Rightarrow> nat \<Rightarrow> complex fl" where
  "raw_fwt hk b i =
     (Num (column ''FP'' (hk_df hk) ! i) * cplx (hk_S hk b)
        + cplx (hk_var_noise hk b) * cplx (hk_D hk b) * Num (column ''FC'' (hk_df hk) ! i))
       / cplx (hk_S hk b + hk_var_noise hk b)"

definition norm_fo :: "hkldata \<Rightarrow> int \<Rightarrow> real fl" where
  "norm_fo hk b = np_std (masked (column ''FP'' (hk_df hk)) (bin_sel b hk)) * np_sqrt (hk_FSCfull hk b)"

definition hk_perfect :: hkldata where
  "hk_perfect =
     \<lparr> hk_df = [mk_row 1 1 1 1 2 1, mk_row 2 2 2 2 2 1, mk_row 3 3 3 3 2 1],
       hk_shells = [(1, 2, 2)],
       hk_var_noise = (\<lambda>_. Num 0), hk_FSCfull = (\<lambda>_. Num 0),
       hk_D = (\<lambda>_. Num 0), hk_S = (\<lambda>_. Num 0) \<rparr>"

definition hk_perfect_stats :: hkldata where
  "hk_perfect_stats = fst (calc_D_and_S True (fst (calc_noise_var hk_perfect)))"

definition hk_maps_example :: hkldata where
  "hk_maps_example =
     \<lparr> hk_df = [mk_row 3 3 3 1 2 1, mk_row 1 1 1 1 2 1, mk_row 5 5 5 2 1 2],
       hk_shells = [(1, 2, 2), (2, 1, 1)],
       hk_var_noise = (\<lambda>_. Num 1), hk_FSCfull = (\<lambda>_. Num 1),
       hk_D = (\<lambda>_. Num 2), hk_S = (\<lambda>_. Num 1) \<rparr>"

text \<open>\<open>atten c B d\<close> is the attenuation factor \<open>exp(-B s2 / c)\<close> of a record of resolution
  \<open>d\<close>, with \<open>s2 = 1/d**2\<close>: \<open>k\<close> for \<open>c = 4\<close> and \<open>k2\<close> for \<open>c = 2\<close>.\<close>

definition atten :: "real \<Rightarrow> real \<Rightarrow> real \<Rightarrow> real fl" where
  "atten c bb d = np_exp (Num (- bb) * (Num 1 / Num (d\<^sup>2)) / Num c)"

text \<open>\<open>hk_B_example\<close> has two shells of two reflections; the full-data correlation of the
  second shell is so small that its normalisation factor is \<open>1e-11\<close>.\<close>

definition hk_B_example :: hkldata where
  "hk_B_example =
     \<lparr> hk_df = [mk_row 3 3 3 1 1 1, mk_row 1 1 1 1 1 1, mk_row 3 3 3 1 (1 / 2) 2, mk_row 1 1 1 1 (1 / 2) 2],
       hk_shells = [(1, 1, 1), (2, 1 / 2, 1 / 2)],
       hk_var_noise = (\<lambda>_. Num 1),
       hk_FSCfull = (\<lambda>b. if b = 1 then Num 1 else Num (1 / 10 ^ 22)),
       hk_D = (\<lambda>_. Num 2), hk_S = (\<lambda>_. Num 1) \<rparr>"
section \<open>Lemmas about the binning\<close>

lemma resolve_sweep_False:
  "resolve_sweep ks (mt, False) = (mt', f) \<Longrightarrow> f = False"
  by (induction ks arbitrary: mt) (auto split: option.splits)

lemma resolve_sweep_True:
  "resolve_sweep ks (mt, f) = (mt', True) \<Longrightarrow>
     mt' = mt \<and> f \<and> (\<forall>k\<in>set ks. \<forall>t. map_of mt k = Some t \<longrightarrow> map_of mt t = None)"
proof (induction ks arbitrary: mt f)
  case Nil
  then show ?case by simp
next
  case (Cons k ks)
  show ?case
  proof (cases "map_of mt k")
    case None
    with Cons show ?thesis by auto
  next
    case (Some t)
    show ?thesis
    proof (cases "map_of mt t")
      case None
      with Some Cons show ?thesis by auto
    next
      case (Some t')
      with \<open>map_of mt k = Some t\<close> Cons.prems
      have "resolve_sweep ks (AList.update k t' mt, False) = (mt', True)" by simp
      from resolve_sweep_False[OF this] show ?thesis by simp
    qed
  qed
qed

lemma resolve_chains_resolved:
  "resolve_chains mt = Some mt' \<Longrightarrow> resolved mt'"
proof (induction rule: resolve_chains.raw_induct[rotated 1, consumes 1])
  case (1 rc mt r)
  obtain m f where sw: "resolve_sweep (map fst mt) (mt, True) = (m, f)" by force
  show ?case
  proof (cases f)
    case True
    with sw 1(2) have "r = m" by simp
    moreover from resolve_sweep_True[of "map fst mt" mt True m] sw True
    have "m = mt" "\<forall>k\<in>set (map fst mt). \<forall>t. map_of mt k = Some t \<longrightarrow> map_of mt t = None" by auto
    ultimately show ?thesis by (simp add: resolved_def)
  next
    case False
    with sw 1(2) have "rc m = Some r" by simp
    then show ?thesis by (rule 1(1))
  qed
qed

lemma rewrite_fold_resolved:
  assumes "\<forall>k\<in>set ks. \<forall>t. map_of mt k = Some t \<longrightarrow> map_of mt t = None"
  shows "fold (\<lambda>i_bin bs. case map_of mt i_bin of None \<Rightarrow> bs
                 | Some new_bin \<Rightarrow> map (\<lambda>b. if b = i_bin then new_bin else b) bs) ks bins
         = map (\<lambda>b. if b \<in> set ks then (case map_of mt b of None \<Rightarrow> b | Some t \<Rightarrow> t) else b) bins"
  using assms
proof (induction ks arbitrary: bins)
  case Nil
  then show ?case by simp
next
  case (Cons k ks)
  show ?case
  proof (cases "map_of mt k")
    case None
    with Cons show ?thesis by (simp split: option.splits)
  next
    case (Some t)
    with Cons.prems have tn: "map_of mt t = None" by simp
    have "t \<notin> set ks \<or> map_of mt t = None" using tn by simp
    have step: "fold (\<lambda>i_bin bs. case map_of mt i_bin of None \<Rightarrow> bs
                 | Some new_bin \<Rightarrow> map (\<lambda>b. if b = i_bin then new_bin else b) bs) (k # ks) bins
        = fold (\<lambda>i_bin bs. case map_of mt i_bin of None \<Rightarrow> bs
                 | Some new_bin \<Rightarrow> map (\<lambda>b. if b = i_bin then new_bin else b) bs) ks
             (map (\<lambda>b. if b = k then t else b) bins)"
      using Some by simp
    have ih: "\<forall>k\<in>set ks. \<forall>t. map_of mt k = Some t \<longrightarrow> map_of mt t = None"
      using Cons.prems by (meson list.set_intros(2))
    have pt: "\<And>b. (if (if b = k then t else b) \<in> set ks
                    then (case map_of mt (if b = k then t else b) of None \<Rightarrow> (if b = k then t else b) | Some u \<Rightarrow> u)
                    else (if b = k then t else b))
                = (if b \<in> set (k # ks) then (case map_of mt b of None \<Rightarrow> b | Some u \<Rightarrow> u) else b)"
    proof -
      fix b
      show "?thesis b"
      proof (cases "b = k")
        case True
        then show ?thesis using Some tn by simp
      next
        case False
        then show ?thesis by simp
      qed
    qed
    show ?thesis
      unfolding step Cons.IH[OF ih] map_map comp_def pt ..
  qed
qed

lemma rewrite_bins_resolved:
  "resolved mt \<Longrightarrow>
   rewrite_bins mt bins = map (\<lambda>b. case map_of mt b of None \<Rightarrow> b | Some t \<Rightarrow> t) bins"
  unfolding rewrite_bins_def resolved_def
proof -
  assume r: "\<forall>k\<in>set (map fst mt). \<forall>t. map_of mt k = Some t \<longrightarrow> map_of mt t = None"
  have "\<And>b t. map_of mt b = Some t \<Longrightarrow> b \<in> set (map fst mt)"
    by (metis map_of_SomeD fst_conv image_eqI set_map)
  then show "fold (\<lambda>i_bin bs. case map_of mt i_bin of None \<Rightarrow> bs
                 | Some new_bin \<Rightarrow> map (\<lambda>b. if b = i_bin then new_bin else b) bs) (map fst mt) bins
       = map (\<lambda>b. case map_of mt b of None \<Rightarrow> b | Some t \<Rightarrow> t) bins"
    unfolding rewrite_fold_resolved[OF r]
    by (intro map_cong refl) (simp split: option.splits)
qed

lemma dist_sum_update:
  "map_of mt k = Some t \<Longrightarrow> \<bar>t' - c\<bar> < \<bar>t - c\<bar> \<Longrightarrow>
   dist_sum c (AList.update k t' mt) < dist_sum c mt"
  unfolding dist_sum_def
  by (induction mt) (auto split: if_splits)

lemma towards_update:
  assumes "towards c mt" "map_of mt k = Some t" "map_of mt t = Some t'"
  shows "towards c (AList.update k t' mt)" "\<bar>t' - c\<bar> < \<bar>t - c\<bar>"
proof -
  from assms have a: "(k < t \<and> t \<le> c) \<or> (c \<le> t \<and> t < k)" and b: "(t < t' \<and> t' \<le> c) \<or> (c \<le> t' \<and> t' < t)"
    unfolding towards_def by blast+
  from a b show "\<bar>t' - c\<bar> < \<bar>t - c\<bar>" by linarith
  from a b have n: "(k < t' \<and> t' \<le> c) \<or> (c \<le> t' \<and> t' < k)" by linarith
  show "towards c (AList.update k t' mt)"
    unfolding towards_def
  proof (intro allI impI)
    fix x y assume "map_of (AList.update k t' mt) x = Some y"
    then have "(x = k \<and> y = t') \<or> map_of mt x = Some y"
      by (auto simp: update_conv' split: if_splits)
    with n assms(1) show "(x < y \<and> y \<le> c) \<or> (c \<le> y \<and> y < x)"
      unfolding towards_def by blast
  qed
qed

lemma resolve_sweep_towards:
  "towards c mt \<Longrightarrow> resolve_sweep ks (mt, f) = (mt', f') \<Longrightarrow>
     towards c mt' \<and> dist_sum c mt' \<le> dist_sum c mt \<and> (f \<and> \<not> f' \<longrightarrow> dist_sum c mt' < dist_sum c mt)"
proof (induction ks arbitrary: mt f)
  case Nil
  then show ?case by simp
next
  case (Cons k ks)
  show ?case
  proof (cases "map_of mt k")
    case None
    with Cons.prems have "resolve_sweep ks (mt, f) = (mt', f')" by simp
    from Cons.IH[OF Cons.prems(1) this] show ?thesis .
  next
    case (Some t)
    note kt = this
    show ?thesis
    proof (cases "map_of mt t")
      case None
      with kt Cons.prems have "resolve_sweep ks (mt, f) = (mt', f')" by simp
      from Cons.IH[OF Cons.prems(1) this] show ?thesis .
    next
      case (Some t')
      with kt Cons.prems have sw: "resolve_sweep ks (AList.update k t' mt, False) = (mt', f')" by simp
      from towards_update[OF Cons.prems(1) kt Some]
      have tw: "towards c (AList.update k t' mt)" and lt: "\<bar>t' - c\<bar> < \<bar>t - c\<bar>" by simp_all
      from dist_sum_update[OF kt lt]
      have d: "dist_sum c (AList.update k t' mt) < dist_sum c mt" .
      from Cons.IH[OF tw sw] d show ?thesis by simp
    qed
  qed
qed

lemma resolve_chains_terminates:
  "towards c mt \<Longrightarrow> \<exists>mt'. resolve_chains mt = Some mt'"
proof (induction "dist_sum c mt" arbitrary: mt rule: less_induct)
  case less
  obtain m f where sw: "resolve_sweep (map fst mt) (mt, True) = (m, f)" by force
  from resolve_sweep_towards[OF less.prems sw]
  have tw: "towards c m" and lt: "\<not> f \<Longrightarrow> dist_sum c m < dist_sum c mt" by simp_all
  show ?case
  proof (cases f)
    case True
    with sw show ?thesis by (subst resolve_chains.simps) simp
  next
    case False
    from less.hyps[OF lt[OF False] tw] obtain r where "resolve_chains m = Some r" ..
    with sw False show ?thesis by (subst resolve_chains.simps) simp
  qed
qed

lemma towards_trancl:
  assumes "towards c mt" "(a, b) \<in> {(k, t). map_of mt k = Some t}\<^sup>+"
  shows "\<bar>b - c\<bar> < \<bar>a - c\<bar>"
  using assms(2)
proof (induction rule: trancl_induct)
  case (base y)
  with assms(1) show ?case unfolding towards_def by fastforce
next
  case (step y z)
  from step(2) assms(1) have "\<bar>z - c\<bar> < \<bar>y - c\<bar>" unfolding towards_def by fastforce
  with step(3) show ?case by linarith
qed

lemma length_index_union: "length (index_union a b) = card (set a \<union> set b)"
  unfolding index_union_def by (simp add: length_remdups_card_conv)

lemma index_union_props:
  "distinct (index_union a b)"
  "a \<noteq> [] \<Longrightarrow> index_union a b \<noteq> []"
  "distinct a \<Longrightarrow> length a \<le> length (index_union a b)"
  "distinct b \<Longrightarrow> length b \<le> length (index_union a b)"
proof -
  show "distinct (index_union a b)" unfolding index_union_def by simp
  show "a \<noteq> [] \<Longrightarrow> index_union a b \<noteq> []"
    unfolding index_union_def by (cases a) (auto simp: sort_key_def[symmetric] dest: arg_cong[where f=set])
  show "distinct a \<Longrightarrow> length a \<le> length (index_union a b)"
    unfolding length_index_union by (metis List.finite_set Un_upper1 card_mono distinct_card finite_UnI)
  show "distinct b \<Longrightarrow> length b \<le> length (index_union a b)"
    unfolding length_index_union by (metis List.finite_set Un_upper2 card_mono distinct_card finite_UnI)
qed

lemma map_fst_update:
  "j < length bc \<Longrightarrow> map fst (bc[j := (fst (bc ! j), g)]) = map fst bc"
  by (simp add: map_update list_update_same_conv)

lemma shells_ok_update:
  assumes "shells_ok bc" "j < length bc" "g \<noteq> []" "distinct g"
  shows "shells_ok (bc[j := (fst (bc ! j), g)])"
proof -
  have "set (bc[j := (fst (bc ! j), g)]) \<subseteq> insert (fst (bc ! j), g) (set bc)"
    by (rule set_update_subset_insert)
  with assms show ?thesis
    unfolding shells_ok_def by (auto simp: map_fst_update)
qed

lemma shells_ok_nth:
  "shells_ok bc \<Longrightarrow> j < length bc \<Longrightarrow> snd (bc ! j) \<noteq> [] \<and> distinct (snd (bc ! j))"
  unfolding shells_ok_def using nth_mem[of j bc] by (auto simp: case_prod_beta)

lemma shells_ok_less:
  "shells_ok bc \<Longrightarrow> i < j \<Longrightarrow> j < length bc \<Longrightarrow> fst (bc ! i) < fst (bc ! j)"
  unfolding shells_ok_def by (auto simp: sorted_wrt_iff_nth_less)

lemma shells_ok_le:
  "shells_ok bc \<Longrightarrow> i \<le> j \<Longrightarrow> j < length bc \<Longrightarrow> fst (bc ! i) \<le> fst (bc ! j)"
  using shells_ok_less[of bc i j] by (cases "i = j") auto

lemma upto_update:
  "upto c mt \<Longrightarrow> c < t \<Longrightarrow> t \<le> c' \<Longrightarrow> upto c' (AList.update c t mt)"
  unfolding upto_def by (fastforce simp: update_conv' split: if_splits)

lemma towards_insert:
  "towards c mt \<Longrightarrow> c \<le> t \<Longrightarrow> t < k \<Longrightarrow> towards c (AList.update k t mt)"
  unfolding towards_def by (auto simp: update_conv' split: if_splits)

lemma upto_towards: "upto c mt \<Longrightarrow> towards c mt"
  unfolding upto_def towards_def by blast

lemma forward_pass_inv:
  "forward_pass i (bc, mt) = (bc', mt') \<Longrightarrow> pass_inv i bc \<Longrightarrow> upto (fst (bc ! i)) mt \<Longrightarrow>
     \<exists>k. pass_inv k bc' \<and> upto (fst (bc' ! k)) mt'"
proof (induction i "(bc, mt)" arbitrary: bc mt rule: forward_pass.induct)
  case (1 i bc mt)
  from "1.prems"(2) have ok: "shells_ok bc" and il: "i < length bc" unfolding pass_inv_def by simp_all
  show ?case
  proof (cases "length (snd (bc ! i)) < 10 \<and> int i < int (length bc) - 1")
    case False
    with "1.prems" il have "bc' = bc" "mt' = mt" by simp_all
    with "1.prems" show ?thesis by blast
  next
    case True
    then have sl: "Suc i < length bc" by linarith
    let ?g = "index_union (snd (bc ! (i + 1))) (snd (bc ! i))"
    let ?bc = "bc[i + 1 := (fst (bc ! (i + 1)), ?g)]"
    let ?mt = "AList.update (fst (bc ! i)) (fst (bc ! (i + 1))) mt"
    from True il "1.prems"(1) have fp: "forward_pass (i + 1) (?bc, ?mt) = (bc', mt')" by simp
    from shells_ok_nth[OF ok sl] shells_ok_nth[OF ok il]
    have g: "?g \<noteq> []" "distinct ?g" "length (snd (bc ! i)) \<le> length ?g"
      by (simp_all add: index_union_props)
    from shells_ok_update[OF ok _ g(1,2)] sl have ok': "shells_ok ?bc" by simp
    have pi: "pass_inv (i + 1) ?bc"
      unfolding pass_inv_def using ok' sl g(3) by simp
    have "fst (bc ! i) < fst (bc ! (i + 1))" using shells_ok_less[OF ok _ sl, of i] by simp
    from upto_update[OF "1.prems"(3) this, of "fst (bc ! (i + 1))"] sl
    have up: "upto (fst (?bc ! (i + 1))) ?mt" by simp 
    from "1.hyps"[OF il True fp pi up] show ?thesis .
  qed
qed

lemma ratio_lt_half:
  "b \<noteq> 0 \<Longrightarrow> (real a / real b < 0.5) = (2 * a < b)"
proof -
  assume "b \<noteq> 0"
  then have "(real a / real b < 0.5) = (real a * 2 < real b)"
    by (simp add: field_simps)
  also have "\<dots> = (real (2 * a) < real b)" by (simp add: mult.commute)
  also have "\<dots> = (2 * a < b)" by (rule of_nat_less_iff)
  finally show ?thesis .
qed

lemma backward_pass_inv:
  "pass_inv k bc \<Longrightarrow> towards (fst (bc ! k)) mt \<Longrightarrow> k \<le> i \<Longrightarrow> i < length bc \<Longrightarrow>
     \<exists>bc' mt'. backward_pass (Suc i) (bc, mt) = Some (bc', mt') \<and> towards (fst (bc ! k)) mt'
        \<and> length bc' = length bc"
proof (induction i arbitrary: bc mt)
  case 0
  then show ?case by simp
next
  case (Suc n)
  from Suc.prems(1) have ok: "shells_ok bc" and kl: "k < length bc"
    and kk: "0 < k \<Longrightarrow> length (snd (bc ! (k - 1))) \<le> length (snd (bc ! k))"
    unfolding pass_inv_def by simp_all
  from Suc.prems(4) have nl: "n < length bc" by simp
  from shells_ok_nth[OF ok nl] have ne: "length (snd (bc ! n)) \<noteq> 0" and dn: "distinct (snd (bc ! n))" by simp_all
  show ?case
  proof (cases "real (length (snd (bc ! Suc n))) / real (length (snd (bc ! n))) < 0.5")
    case False
    with ne Suc.prems(2) show ?thesis by simp
  next
    case True
    have kn: "k \<le> n"
    proof (rule ccontr)
      assume "\<not> k \<le> n"
      with Suc.prems(3) have "k = Suc n" by simp
      with kk have "length (snd (bc ! n)) \<le> length (snd (bc ! Suc n))" by simp
      moreover from True have "2 * length (snd (bc ! Suc n)) < length (snd (bc ! n))"
        unfolding ratio_lt_half[OF ne] .
      ultimately show False by simp
    qed
    let ?g = "index_union (snd (bc ! n)) (snd (bc ! Suc n))"
    let ?bc = "bc[n := (fst (bc ! n), ?g)]"
    let ?mt = "AList.update (fst (bc ! Suc n)) (fst (bc ! n)) mt"
    from True ne have bp: "backward_pass (Suc (Suc n)) (bc, mt) = backward_pass (Suc n) (?bc, ?mt)" by simp
    from shells_ok_nth[OF ok nl]
    have g: "?g \<noteq> []" "distinct ?g" "length (snd (bc ! n)) \<le> length ?g"
      by (simp_all add: index_union_props)
    from shells_ok_update[OF ok nl g(1,2)] have ok': "shells_ok ?bc" .
    have pi: "pass_inv k ?bc"
      unfolding pass_inv_def using ok' kl kk kn g(3) by (cases "k = n") auto
    have fk: "fst (?bc ! k) = fst (bc ! k)" using nl by (cases "k = n") simp_all
    have "towards (fst (bc ! k)) ?mt"
      using towards_insert[OF Suc.prems(2)] shells_ok_le[OF ok kn nl] shells_ok_less[OF ok _ Suc.prems(4), of n]
      by simp
    with fk have tw: "towards (fst (?bc ! k)) ?mt" by simp
    from Suc.IH[OF pi tw kn] nl bp fk show ?thesis by simp
  qed
qed

lemma groupby_bin_fst: "map fst (groupby_bin bins) = sort (remdups bins)"
  unfolding groupby_bin_def by (simp add: comp_def)

lemma initial_bin_counts_fst:
  "map fst (initial_bin_counts bins) = filter (\<lambda>b. b \<noteq> 0) (sort (remdups bins))"
proof -
  have "(\<lambda>(i_bin, g). i_bin \<noteq> 0) = (\<lambda>x :: int \<times> nat list. fst x \<noteq> 0)" by auto
  then show ?thesis
    unfolding initial_bin_counts_def groupby_bin_fst[symmetric]
    by (simp add: filter_map comp_def)
qed

lemma initial_bin_counts_ok: "shells_ok (initial_bin_counts bins)"
proof -
  have "sorted_wrt (<) (sort (remdups bins))"
    by (simp add: strict_sorted_iff)
  then have s: "sorted_wrt (<) (map fst (initial_bin_counts bins))"
    unfolding initial_bin_counts_fst by (rule sorted_wrt_filter)
  have "\<And>b g. (b, g) \<in> set (initial_bin_counts bins) \<Longrightarrow> g \<noteq> [] \<and> distinct g"
  proof -
    fix b g assume "(b, g) \<in> set (initial_bin_counts bins)"
    then have b: "b \<in> set bins" and g: "g = filter (\<lambda>i. bins ! i = b) [0..<length bins]"
      unfolding initial_bin_counts_def groupby_bin_def by auto
    from b obtain i where "i < length bins" "bins ! i = b" by (auto simp: in_set_conv_nth)
    then have "i \<in> set g" unfolding g by simp
    then have "g \<noteq> []" by (cases g) simp_all
    moreover have "distinct g" unfolding g by simp
    ultimately show "g \<noteq> [] \<and> distinct g" by simp
  qed
  with s show ?thesis unfolding shells_ok_def by auto
qed

lemma merge_passes_ok:
  "\<exists>bc mt c. merge_passes bins = Some (bc, mt) \<and> towards c mt"
proof -
  let ?bc0 = "initial_bin_counts bins"
  obtain bc1 mt1 where fp: "forward_pass 0 (?bc0, []) = (bc1, mt1)" by (metis surj_pair)
  show ?thesis
  proof (cases "?bc0 = []")
    case True
    with fp have "bc1 = []" "mt1 = []" by simp_all
    with fp have "merge_passes bins = Some ([], [])" unfolding merge_passes_def by simp
    moreover have "towards 0 []" unfolding towards_def by simp
    ultimately show ?thesis by blast
  next
    case False
    then have "pass_inv 0 ?bc0" unfolding pass_inv_def using initial_bin_counts_ok by simp
    moreover have "upto (fst (?bc0 ! 0)) []" unfolding upto_def by simp
    ultimately obtain k where pi: "pass_inv k bc1" and up: "upto (fst (bc1 ! k)) mt1"
      using forward_pass_inv[OF fp] by blast
    from pi have kl: "k < length bc1" unfolding pass_inv_def by simp
    then have "k \<le> length bc1 - 1" "length bc1 - 1 < length bc1" by simp_all
    from backward_pass_inv[OF pi upto_towards[OF up] this]
    obtain bc2 mt2 where bp: "backward_pass (Suc (length bc1 - 1)) (bc1, mt1) = Some (bc2, mt2)"
      and tw: "towards (fst (bc1 ! k)) mt2" by blast
    have "Suc (length bc1 - 1) = length bc1" using kl by simp
    with bp have "backward_pass (length bc1) (bc1, mt1) = Some (bc2, mt2)" by (simp only:)
    with fp have "merge_passes bins = Some (bc2, mt2)"
      unfolding merge_passes_def by (simp only: prod.case)
    with tw show ?thesis by blast
  qed
qed




lemma resolve_sweep_trancl:
  assumes "resolve_sweep ks (mt, f) = (mt', f')"
    and "\<forall>k t. map_of mt k = Some t \<longrightarrow> (k, t) \<in> R\<^sup>+"
  shows "map fst mt' = map fst mt \<and> (\<forall>k t. map_of mt' k = Some t \<longrightarrow> (k, t) \<in> R\<^sup>+)"
  using assms
proof (induction ks arbitrary: mt f)
  case Nil
  then show ?case by simp
next
  case (Cons k ks)
  show ?case
  proof (cases "map_of mt k")
    case None
    with Cons.prems have "resolve_sweep ks (mt, f) = (mt', f')" by simp
    from Cons.IH[OF this Cons.prems(2)] show ?thesis .
  next
    case (Some t)
    note kt = this
    show ?thesis
    proof (cases "map_of mt t")
      case None
      with kt Cons.prems have "resolve_sweep ks (mt, f) = (mt', f')" by simp
      from Cons.IH[OF this Cons.prems(2)] show ?thesis .
    next
      case (Some t')
      with kt Cons.prems have sw: "resolve_sweep ks (AList.update k t' mt, False) = (mt', f')" by simp
      from kt Some Cons.prems(2) have "(k, t') \<in> R\<^sup>+" by (meson trancl_trans)
      with Cons.prems(2)
      have inv: "\<forall>x y. map_of (AList.update k t' mt) x = Some y \<longrightarrow> (x, y) \<in> R\<^sup>+"
        by (simp add: update_conv')
      from kt have "k \<in> set (map fst mt)" by (metis map_of_SomeD fst_conv image_eqI set_map)
      then have keys: "map fst (AList.update k t' mt) = map fst mt" by (simp add: update_keys)
      from Cons.IH[OF sw inv] keys show ?thesis by simp
    qed
  qed
qed

lemma resolve_chains_trancl:
  assumes "resolve_chains mt = Some mt'"
    and "\<forall>k t. map_of mt k = Some t \<longrightarrow> (k, t) \<in> R\<^sup>+"
  shows "map fst mt' = map fst mt \<and> (\<forall>k t. map_of mt' k = Some t \<longrightarrow> (k, t) \<in> R\<^sup>+)"
  using assms
proof (induction rule: resolve_chains.raw_induct[rotated 1, consumes 1])
  case (1 rc mt r)
  obtain m f where sw: "resolve_sweep (map fst mt) (mt, True) = (m, f)" by (metis surj_pair)
  from resolve_sweep_trancl[OF sw "1.prems"]
  have m: "map fst m = map fst mt" "\<forall>k t. map_of m k = Some t \<longrightarrow> (k, t) \<in> R\<^sup>+" by simp_all
  show ?case
  proof (cases f)
    case True
    with sw 1(2) have "r = m" by simp
    with m show ?thesis by simp
  next
    case False
    with sw 1(2) have "rc m = Some r" by simp
    from 1(1)[OF this m(2)] m(1) show ?thesis by simp
  qed
qed

lemma keys_ok_update:
  assumes "keys_ok bc mt" "i < length bc" "j < length bc"
  shows "keys_ok (bc[j := (fst (bc ! j), g)]) (AList.update (fst (bc ! i)) t mt)"
proof -
  have "fst (bc ! i) \<in> set (map fst bc)" using assms(2) by (metis length_map nth_map nth_mem)
  with assms(1) show ?thesis
    unfolding keys_ok_def map_fst_update[OF assms(3)]
    by (auto simp: distinct_update update_keys)
qed

lemma forward_pass_keys:
  "forward_pass i (bc, mt) = (bc', mt') \<Longrightarrow> keys_ok bc mt \<Longrightarrow> keys_ok bc' mt' \<and> length bc' = length bc"
proof (induction i "(bc, mt)" arbitrary: bc mt rule: forward_pass.induct)
  case (1 i bc mt)
  show ?case
  proof (cases "i < length bc \<and> length (snd (bc ! i)) < 10 \<and> int i < int (length bc) - 1")
    case False
    with "1.prems"(1) have "bc' = bc \<and> mt' = mt" by (simp split: if_splits)
    with "1.prems"(2) show ?thesis by simp
  next
    case True
    then have il: "i < length bc" and sl: "i + 1 < length bc" and c: "length (snd (bc ! i)) < 10 \<and> int i < int (length bc) - 1"
      by linarith+
    let ?bc = "bc[i + 1 := (fst (bc ! (i + 1)), index_union (snd (bc ! (i + 1))) (snd (bc ! i)))]"
    let ?mt = "AList.update (fst (bc ! i)) (fst (bc ! (i + 1))) mt"
    from True "1.prems"(1) have fp: "forward_pass (i + 1) (?bc, ?mt) = (bc', mt')" by simp
    from keys_ok_update[OF "1.prems"(2) il sl] have "keys_ok ?bc ?mt" .
    from "1.hyps"[OF il c fp this] show ?thesis by simp
  qed
qed

lemma backward_pass_keys:
  "backward_pass n (bc, mt) = Some (bc', mt') \<Longrightarrow> n \<le> length bc \<Longrightarrow> keys_ok bc mt \<Longrightarrow>
     keys_ok bc' mt' \<and> length bc' = length bc"
proof (induction n arbitrary: bc mt)
  case 0
  then show ?case by simp
next
  case (Suc i)
  show ?case
  proof (cases "i > 0 \<and> length (snd (bc ! (i - 1))) \<noteq> 0
                 \<and> real (length (snd (bc ! i))) / real (length (snd (bc ! (i - 1)))) < 0.5")
    case False
    with Suc.prems(1) have "bc' = bc \<and> mt' = mt" by (simp split: if_splits)
    with Suc.prems(3) show ?thesis by simp
  next
    case True
    let ?bc = "bc[i - 1 := (fst (bc ! (i - 1)), index_union (snd (bc ! (i - 1))) (snd (bc ! i)))]"
    let ?mt = "AList.update (fst (bc ! i)) (fst (bc ! (i - 1))) mt"
    from True Suc.prems(1) have bp: "backward_pass i (?bc, ?mt) = Some (bc', mt')" by simp
    from Suc.prems(2) have il: "i < length bc" "i - 1 < length bc" by simp_all
    from keys_ok_update[OF Suc.prems(3) il] have k: "keys_ok ?bc ?mt" .
    from il have "i \<le> length ?bc" by simp
    from Suc.IH[OF bp this k] show ?thesis by simp
  qed
qed

lemma keys_ok_length: "keys_ok bc mt \<Longrightarrow> length mt \<le> length bc"
proof -
  assume k: "keys_ok bc mt"
  then have "length mt = card (set (map fst mt))"
    unfolding keys_ok_def by (metis distinct_card length_map)
  also have "\<dots> \<le> card (set (map fst bc))"
    using k unfolding keys_ok_def by (intro card_mono) simp_all
  also have "\<dots> \<le> length bc" by (metis card_length length_map)
  finally show ?thesis .
qed

lemma merge_passes_length:
  assumes "merge_passes bins = Some (bc, mt)"
  shows "length mt \<le> length (initial_bin_counts bins)"
proof -
  obtain bc1 mt1 where fp: "forward_pass 0 (initial_bin_counts bins, []) = (bc1, mt1)"
    by (metis surj_pair)
  have "keys_ok (initial_bin_counts bins) []" unfolding keys_ok_def by simp
  from forward_pass_keys[OF fp this]
  have k1: "keys_ok bc1 mt1" and l1: "length bc1 = length (initial_bin_counts bins)" by simp_all
  from assms fp have "backward_pass (length bc1) (bc1, mt1) = Some (bc, mt)"
    unfolding merge_passes_def by (simp only: prod.case)
  from backward_pass_keys[OF this _ k1] have "keys_ok bc mt" "length bc = length bc1" by simp_all
  with keys_ok_length[of bc mt] l1 show ?thesis by simp
qed

section \<open>Lemmas about the pipeline\<close>

lemma masked_bin_sel: "masked (column l (hk_df hk)) (bin_sel b hk) = shell_col l b (hk_df hk)"
  unfolding shell_col_def bin_sel_def ..

lemma noise_step_df: "hk_df (fst (noise_step sh st)) = hk_df (fst st)"
  unfolding noise_step_def by (auto simp: Let_def split: prod.splits)

lemma noise_fold_df: "hk_df (fst (fold noise_step shs st)) = hk_df (fst st)"
  by (induction shs arbitrary: st) (simp_all add: noise_step_df)

lemma noise_step_other:
  "fst sh \<noteq> b \<Longrightarrow> hk_var_noise (fst (noise_step sh st)) b = hk_var_noise (fst st) b
                \<and> hk_FSCfull (fst (noise_step sh st)) b = hk_FSCfull (fst st) b"
  unfolding noise_step_def by (auto simp: Let_def split: prod.splits)

lemma noise_fold_other:
  "b \<notin> fst ` set shs \<Longrightarrow> hk_var_noise (fst (fold noise_step shs st)) b = hk_var_noise (fst st) b
                \<and> hk_FSCfull (fst (fold noise_step shs st)) b = hk_FSCfull (fst st) b"
  by (induction shs arbitrary: st) (simp_all add: noise_step_other)

lemma noise_step_log: "set (snd st) \<subseteq> set (snd (noise_step sh st))"
  unfolding noise_step_def by (auto simp: Let_def split: prod.splits)

lemma noise_fold_log: "set (snd st) \<subseteq> set (snd (fold noise_step shs st))"
proof (induction shs arbitrary: st)
  case Nil
  then show ?case by simp
next
  case (Cons sh shs)
  have "set (snd st) \<subseteq> set (snd (noise_step sh st))" by (rule noise_step_log)
  also have "\<dots> \<subseteq> set (snd (fold noise_step shs (noise_step sh st)))" by (rule Cons.IH)
  finally show ?case by simp
qed

lemma noise_step_this:
  "noise_post (fst st) b (noise_step (b, x, y) st)"
  unfolding noise_step_def noise_post_def
  by (auto simp: Let_def masked_bin_sel split: prod.splits)

lemma noise_fold_this:
  assumes "distinct (map fst shs)" "(b, x, y) \<in> set shs"
  shows "noise_post (fst st) b (fold noise_step shs st)"
  using assms
proof (induction shs arbitrary: st)
  case Nil
  then show ?case by simp
next
  case (Cons sh shs)
  show ?case
  proof (cases "sh = (b, x, y)")
    case True
    with Cons.prems have nb: "b \<notin> fst ` set shs" by auto
    have p: "noise_post (fst st) b (noise_step (b, x, y) st)" by (rule noise_step_this)
    from noise_fold_other[OF nb, of "noise_step (b, x, y) st"]
         noise_fold_log[of "noise_step (b, x, y) st" shs] p True
    show ?thesis unfolding noise_post_def by (auto simp: Let_def)
  next
    case False
    with Cons.prems have d: "distinct (map fst shs)" and m: "(b, x, y) \<in> set shs" by auto
    from Cons.prems(1) have "fst sh \<notin> fst ` set shs" by simp
    with m have "fst sh \<noteq> b" by (metis fst_conv image_eqI)
    from noise_step_other[OF this, of st] Cons.IH[OF d m, of "noise_step sh st"]
    show ?thesis unfolding noise_post_def by (simp add: noise_step_df)
  qed
qed

lemma D_and_S_step_df: "hk_df (fst (D_and_S_step hh sh st)) = hk_df (fst st)"
  unfolding D_and_S_step_def by (auto simp: Let_def split: prod.splits)

lemma D_and_S_step_noise:
  "hk_var_noise (fst (D_and_S_step hh sh st)) = hk_var_noise (fst st)"
  unfolding D_and_S_step_def by (auto simp: Let_def split: prod.splits)

lemma D_and_S_step_other:
  "fst sh \<noteq> b \<Longrightarrow> hk_D (fst (D_and_S_step hh sh st)) b = hk_D (fst st) b
                \<and> hk_S (fst (D_and_S_step hh sh st)) b = hk_S (fst st) b"
  unfolding D_and_S_step_def by (auto simp: Let_def split: prod.splits)

lemma D_and_S_fold_other:
  "b \<notin> fst ` set shs \<Longrightarrow> hk_D (fst (fold (D_and_S_step hh) shs st)) b = hk_D (fst st) b
                \<and> hk_S (fst (fold (D_and_S_step hh) shs st)) b = hk_S (fst st) b"
  by (induction shs arbitrary: st) (simp_all add: D_and_S_step_other)

lemma D_and_S_step_this:
  "D_and_S_post hh (fst st) b (fst (D_and_S_step hh (b, x, y) st))"
  unfolding D_and_S_step_def D_and_S_post_def
  by (auto simp: Let_def masked_bin_sel split: prod.splits)

lemma D_and_S_post_cong:
  "hk_D a b = hk_D a' b \<Longrightarrow> hk_S a b = hk_S a' b \<Longrightarrow>
     D_and_S_post hh hk b a = D_and_S_post hh hk b a'"
  unfolding D_and_S_post_def Let_def by (simp only:)

lemma D_and_S_fold_this:
  assumes "distinct (map fst shs)" "(b, x, y) \<in> set shs"
  shows "D_and_S_post hh (fst st) b (fst (fold (D_and_S_step hh) shs st))"
  using assms
proof (induction shs arbitrary: st)
  case Nil
  then show ?case by simp
next
  case (Cons sh shs)
  show ?case
  proof (cases "sh = (b, x, y)")
    case True
    with Cons.prems have nb: "b \<notin> fst ` set shs" by auto
    have p: "D_and_S_post hh (fst st) b (fst (D_and_S_step hh (b, x, y) st))" by (rule D_and_S_step_this)
    from D_and_S_fold_other[OF nb, of hh "D_and_S_step hh (b, x, y) st"]
    have "D_and_S_post hh (fst st) b (fst (fold (D_and_S_step hh) shs (D_and_S_step hh (b, x, y) st)))
            = D_and_S_post hh (fst st) b (fst (D_and_S_step hh (b, x, y) st))"
      by (intro D_and_S_post_cong) simp_all
    with p True show ?thesis by (simp only: fold_simps)
  next
    case False
    with Cons.prems have d: "distinct (map fst shs)" and m: "(b, x, y) \<in> set shs" by auto
    from Cons.prems(1) have "fst sh \<notin> fst ` set shs" by simp
    with m have "fst sh \<noteq> b" by (metis fst_conv image_eqI)
    from D_and_S_step_other[OF this, of hh st]
    have e: "hk_S (fst (D_and_S_step hh sh st)) b = hk_S (fst st) b" by simp
    from Cons.IH[OF d m, of "D_and_S_step hh sh st"]
    show ?thesis
      unfolding D_and_S_post_def fold_simps D_and_S_step_df D_and_S_step_noise e .
  qed
qed

lemma py_max0_nonneg: "\<exists>s. py_max0 x = Num s \<and> 0 \<le> s"
  by (cases x) auto

lemma py_max0_max: "py_max0 (Num v) = Num (max 0 v)"
  by auto

lemma ex_cols:
  "masked (column ''F_map1'' (hk_df hk_example)) (bin_sel 1 hk_example) = [3, 1, 0]"
  "masked (column ''F_map2'' (hk_df hk_example)) (bin_sel 1 hk_example) = [1, 1, 2]"
  "masked (column ''FP'' (hk_df hk_example)) (bin_sel 1 hk_example) = [2, 1, 1]"
  "masked (column ''FC'' (hk_df hk_example)) (bin_sel 1 hk_example) = [1, 1, 1]"
  "masked (column ''F_map1'' (hk_df hk_example)) (bin_sel 2 hk_example) = [5]"
  "masked (column ''F_map2'' (hk_df hk_example)) (bin_sel 2 hk_example) = [5]"
  "masked (column ''FP'' (hk_df hk_example)) (bin_sel 2 hk_example) = [5]"
  "masked (column ''FC'' (hk_df hk_example)) (bin_sel 2 hk_example) = [2]"
  by (simp_all add: hk_example_def mk_row_def masked_def column_def bin_sel_def)

lemma ex_var: "np_var (map2 (-) [3, 1, 0] [1, 1, 2]) / Num 4 = Num (2 / 3)"
  by (simp add: np_var_def np_average_def np_mean_def fl_sum_def abs2_def cmod_power2)

lemma ex_D: "Num (sum_list (map2 (\<lambda>fo fc. Re (fo * cnj fc)) [2, 1, 1] [1, 1, 1 :: complex]))
             / Num (sum_list (map (\<lambda>fc. (cmod fc)\<^sup>2) [1, 1, 1 :: complex])) = Num (4 / 3 :: real)"
  by simp

lemma ex_S: "np_average (map2 (\<lambda>fo fc. abs2 (Num fo - cplx (Num (4 / 3)) * Num fc)) [2, 1, 1] [1, 1, 1]) - Num (1 / 9)
    = Num (1 / 9)"
  by (simp add: np_average_def fl_sum_def abs2_def cmod_power2 cplx_def power2_eq_square)

lemma merged_rows:
  assumes "r \<in> set (df_merge (df_from_asu_data a1 ''F_map1'') (df_from_asu_data a2 ''F_map2''))"
  shows "\<exists>h v1 v2. (h, v1) \<in> set a1 \<and> (h, v2) \<in> set a2 \<and> r_hkl r = h
            \<and> r_cols r = [(''F_map1'', v1), (''F_map2'', v2)]"
  using assms unfolding df_merge_def df_from_asu_data_def
  by (auto simp: case_prod_beta)

lemma add_FP_cols:
  "r_cols r = [(''F_map1'', v1), (''F_map2'', v2)] \<Longrightarrow>
     r_hkl (add_FP r) = r_hkl r
   \<and> map_of (r_cols (add_FP r)) ''F_map1'' = Some v1
   \<and> map_of (r_cols (add_FP r)) ''F_map2'' = Some v2
   \<and> map_of (r_cols (add_FP r)) ''FP'' = Some ((v1 + v2) / 2)"
  unfolding add_FP_def by simp

lemma has_column_F_map2:
  "\<not> has_column ''F_map2'' (df_from_asu_data a1 ''F_map1'')"
  unfolding has_column_def df_from_asu_data_def by (auto simp: case_prod_beta)

text \<open>What the two-map branch is written to do, had the frame been passed as \<open>df\<close>: the merge
  succeeds and every row gets \<open>FP = (F_map1 + F_map2)/2\<close>.\<close>

lemma FP_mean_on_a_frame:
  "\<exists>df. (case merge_asu_data a2 ''F_map2'' (HklData (Frame (df_from_asu_data a1 ''F_map1'')) Py_None) of
            Inl e \<Rightarrow> Inl e | Inr hkldata \<Rightarrow> assign_FP hkldata)
         = Inr \<lparr> ho_df = Frame df, ho_binned_df = Py_None \<rparr>
       \<and> (\<forall>r\<in>set df. \<exists>v1 v2. (r_hkl r, v1) \<in> set a1 \<and> (r_hkl r, v2) \<in> set a2
              \<and> map_of (r_cols r) ''FP'' = Some ((v1 + v2) / 2))"
proof -
  let ?m = "df_merge (df_from_asu_data a1 ''F_map1'') (df_from_asu_data a2 ''F_map2'')"
  have e: "(case merge_asu_data a2 ''F_map2'' (HklData (Frame (df_from_asu_data a1 ''F_map1'')) Py_None) of
            Inl e \<Rightarrow> Inl e | Inr hkldata \<Rightarrow> assign_FP hkldata)
         = Inr \<lparr> ho_df = Frame (map add_FP ?m), ho_binned_df = Py_None \<rparr>"
    unfolding merge_asu_data_def HklData_def assign_FP_def
    by (simp add: has_column_F_map2)
  have "\<And>r. r \<in> set (map add_FP ?m) \<Longrightarrow> \<exists>v1 v2. (r_hkl r, v1) \<in> set a1 \<and> (r_hkl r, v2) \<in> set a2
              \<and> map_of (r_cols r) ''FP'' = Some ((v1 + v2) / 2)"
  proof -
    fix r assume "r \<in> set (map add_FP ?m)"
    then obtain r0 where r0: "r0 \<in> set ?m" and r: "r = add_FP r0" by auto
    from merged_rows[OF r0] obtain h v1 v2 where
      h: "(h, v1) \<in> set a1" "(h, v2) \<in> set a2" "r_hkl r0 = h" "r_cols r0 = [(''F_map1'', v1), (''F_map2'', v2)]"
      by blast
    from add_FP_cols[OF h(4)] h(1,2,3) r
    show "\<exists>v1 v2. (r_hkl r, v1) \<in> set a1 \<and> (r_hkl r, v2) \<in> set a2
              \<and> map_of (r_cols r) ''FP'' = Some ((v1 + v2) / 2)" by auto
  qed
  with e show ?thesis by blast
qed

lemma length_masked:
  "length xs = length sel \<Longrightarrow> length (masked xs sel) = length (filter id sel)"
  unfolding masked_def
proof (induction xs sel rule: list_induct2)
  case Nil
  then show ?case by simp
next
  case (Cons x xs s ss)
  then show ?case by simp
qed

lemma rank_less:
  "i < length sel \<Longrightarrow> sel ! i \<Longrightarrow> rank sel i < length (filter id sel)"
  unfolding rank_def
proof (induction sel arbitrary: i)
  case Nil
  then show ?case by simp
next
  case (Cons s ss)
  then show ?case by (cases i) auto
qed

lemma masked_nth:
  "length xs = length sel \<Longrightarrow> i < length sel \<Longrightarrow> sel ! i \<Longrightarrow> masked xs sel ! rank sel i = xs ! i"
  unfolding masked_def rank_def
proof (induction xs sel arbitrary: i rule: list_induct2)
  case Nil
  then show ?case by simp
next
  case (Cons x xs s ss)
  then show ?case by (cases i) auto
qed

lemma length_mask_assign: "length (mask_assign a sel vs) = length a"
  by (induction a sel vs rule: mask_assign.induct) simp_all

lemma mask_assign_other:
  "i < length a \<Longrightarrow> i < length sel \<Longrightarrow> \<not> sel ! i \<Longrightarrow> mask_assign a sel vs ! i = a ! i"
proof (induction a sel vs arbitrary: i rule: mask_assign.induct)
  case (1 a as ss v vs)
  then show ?case by (cases i) auto
next
  case (2 a as ss vs)
  then show ?case by (cases i) auto
qed simp_all

lemma mask_assign_this:
  "length a = length sel \<Longrightarrow> length vs = length (filter id sel) \<Longrightarrow> i < length sel \<Longrightarrow> sel ! i \<Longrightarrow>
     mask_assign a sel vs ! i = vs ! rank sel i"
  unfolding rank_def
proof (induction a sel vs arbitrary: i rule: mask_assign.induct)
  case (1 a as ss v vs)
  then show ?case by (cases i) auto
next
  case (2 a as ss vs)
  then show ?case by (cases i) auto
qed simp_all

lemma put_wf: "wf_out n tmp \<Longrightarrow> wf_out n (put l sel vals tmp)"
  unfolding wf_out_def put_def by (auto simp: length_mask_assign split: option.splits)

lemma put_at_other:
  "wf_out n tmp \<Longrightarrow> length sel = n \<Longrightarrow> i < n \<Longrightarrow> \<not> sel ! i \<Longrightarrow> at_rec i (put l sel vals tmp) = at_rec i tmp"
  unfolding wf_out_def put_def at_rec_def
  by (auto simp: mask_assign_other fun_eq_iff split: option.splits)

lemma put_at_this:
  "wf_out n tmp \<Longrightarrow> length sel = n \<Longrightarrow> length vals = length (filter id sel) \<Longrightarrow> i < n \<Longrightarrow> sel ! i \<Longrightarrow>
     at_rec i (put l sel vals tmp) = put1 l (vals ! rank sel i) (at_rec i tmp)"
  unfolding wf_out_def put_def at_rec_def put1_def
  by (auto simp: mask_assign_this fun_eq_iff split: option.splits)

lemma length_bin_sel [simp]: "length (bin_sel b hk) = length (hk_df hk)"
  unfolding bin_sel_def by simp

lemma length_column [simp]: "length (column l df) = length df"
  unfolding column_def by simp

lemma bin_sel_nth: "i < length (hk_df hk) \<Longrightarrow> bin_sel b hk ! i = (b = r_bin (hk_df hk ! i))"
  unfolding bin_sel_def by simp

lemma maps_step_wf:
  "wf_out n tmp \<Longrightarrow> wf_out n (fst (maps_step B hh hk sh (tmp, lg)))"
  unfolding maps_step_def
  by (auto simp: Let_def put_wf split: prod.splits option.splits)

lemma maps_step_other:
  assumes "wf_out (length (hk_df hk)) tmp" "i < length (hk_df hk)" "r_bin (hk_df hk ! i) \<noteq> b"
  shows "at_rec i (fst (maps_step B hh hk (b, x, y) (tmp, lg))) = at_rec i tmp"
proof -
  have s: "\<not> bin_sel b hk ! i" using assms(2,3) by (auto simp: bin_sel_nth)
  have p: "\<And>l vals t. wf_out (length (hk_df hk)) t \<Longrightarrow> at_rec i (put l (bin_sel b hk) vals t) = at_rec i t"
    by (rule put_at_other[OF _ _ assms(2) s]) simp_all
  show ?thesis
    unfolding maps_step_def
    by (simp add: Let_def p put_wf assms(1) split: option.splits)
qed

lemma maps_step_this:
  assumes wf: "wf_out (length (hk_df hk)) tmp" and i: "i < length (hk_df hk)"
    and b: "r_bin (hk_df hk ! i) = b"
  shows "at_rec i (fst (maps_step B hh hk (b, x, y) (tmp, lg))) = rec_maps B hh hk b i (at_rec i tmp)"
proof -
  let ?sel = "bin_sel b hk"
  have s: "?sel ! i" using i b by (simp add: bin_sel_nth)
  have rl: "rank ?sel i < length (filter id ?sel)" by (rule rank_less[OF _ s]) (simp add: i)
  have p: "\<And>l vals t. wf_out (length (hk_df hk)) t \<Longrightarrow> length vals = length (filter id ?sel) \<Longrightarrow>
             at_rec i (put l ?sel vals t) = put1 l (vals ! rank ?sel i) (at_rec i t)"
    by (rule put_at_this[OF _ _ _ i s]) simp_all
  have lm: "\<And>xs :: complex list. length xs = length (hk_df hk) \<Longrightarrow> length (masked xs ?sel) = length (filter id ?sel)"
    by (rule length_masked) simp
  have lm': "\<And>xs :: real list. length xs = length (hk_df hk) \<Longrightarrow> length (masked xs ?sel) = length (filter id ?sel)"
    by (rule length_masked) simp
  have m: "\<And>xs :: complex list. length xs = length (hk_df hk) \<Longrightarrow> masked xs ?sel ! rank ?sel i = xs ! i"
    by (rule masked_nth[OF _ _ s]) (simp_all add: i)
  have m': "\<And>xs :: real list. length xs = length (hk_df hk) \<Longrightarrow> masked xs ?sel ! rank ?sel i = xs ! i"
    by (rule masked_nth[OF _ _ s]) (simp_all add: i)
  show ?thesis
  proof (cases hh)
    case False
    then show ?thesis
      unfolding maps_step_def rec_maps_def
      by (simp add: Let_def p put_wf wf m lm rl)
  next
    case True
    note hh = this
    show ?thesis
    proof (cases "skip_norm (np_std (masked (column ''FP'' (hk_df hk)) ?sel) * np_sqrt (hk_FSCfull hk b))")
      case True
      with hh show ?thesis
        unfolding maps_step_def rec_maps_def
        by (simp add: Let_def p put_wf wf m lm rl)
    next
      case False
      note ns = this
      show ?thesis
      proof (cases B)
        case None
        with hh ns show ?thesis
          unfolding maps_step_def rec_maps_def
          by (simp add: Let_def p put_wf wf m lm rl)
      next
        case (Some bb)
        with hh ns show ?thesis
          unfolding maps_step_def rec_maps_def
          by (simp add: Let_def p put_wf wf m lm rl m' lm' i)
      qed
    qed
  qed
qed

lemma maps_fold_wf:
  "wf_out n tmp \<Longrightarrow> wf_out n (fst (fold (maps_step B hh hk) shs (tmp, lg)))"
proof (induction shs arbitrary: tmp lg)
  case Nil
  then show ?case by simp
next
  case (Cons sh shs)
  obtain t1 l1 where s: "maps_step B hh hk sh (tmp, lg) = (t1, l1)" by (metis surj_pair)
  from maps_step_wf[OF Cons.prems, of B hh hk sh lg] s have "wf_out n t1" by simp
  from Cons.IH[OF this, of l1] s show ?case by simp
qed

lemma maps_fold_at:
  assumes "distinct (map fst shs)" "wf_out (length (hk_df hk)) tmp" "i < length (hk_df hk)"
  shows "at_rec i (fst (fold (maps_step B hh hk) shs (tmp, lg)))
         = (if r_bin (hk_df hk ! i) \<in> fst ` set shs
            then rec_maps B hh hk (r_bin (hk_df hk ! i)) i (at_rec i tmp) else at_rec i tmp)"
  using assms(1,2)
proof (induction shs arbitrary: tmp lg)
  case Nil
  then show ?case by simp
next
  case (Cons sh shs)
  obtain b x y where sh: "sh = (b, x, y)" by (metis prod_cases3)
  obtain t1 l1 where s: "maps_step B hh hk (b, x, y) (tmp, lg) = (t1, l1)" by (metis surj_pair)
  from maps_step_wf[OF Cons.prems(2), of B hh hk "(b, x, y)" lg] s
  have wf1: "wf_out (length (hk_df hk)) t1" by simp
  from Cons.prems(1) sh have d: "distinct (map fst shs)" and nb: "b \<notin> fst ` set shs" by auto
  have f: "fold (maps_step B hh hk) (sh # shs) (tmp, lg) = fold (maps_step B hh hk) shs (t1, l1)"
    using sh s by simp
  show ?case
  proof (cases "r_bin (hk_df hk ! i) = b")
    case True
    from maps_step_this[OF Cons.prems(2) assms(3) True, of B hh x y lg] s
    have "at_rec i t1 = rec_maps B hh hk b i (at_rec i tmp)" by simp
    with Cons.IH[OF d wf1, of l1] nb True sh show ?thesis unfolding f by simp
  next
    case False
    from maps_step_other[OF Cons.prems(2) assms(3) False, of B hh x y lg] s
    have "at_rec i t1 = at_rec i tmp" by simp
    with Cons.IH[OF d wf1, of l1] False sh show ?thesis unfolding f by simp
  qed
qed

lemma calc_maps_parts:
  "fst (calc_maps B hh hk) = maps_labs B hh"
  "fst (snd (calc_maps B hh hk))
     = fst (fold (maps_step B hh hk) (bin_and_limits hk)
              (map_of (map (\<lambda>l. (l, replicate (length (hk_df hk)) (Num 0))) (maps_labs B hh)), [Maps_Start]))"
  "snd (snd (calc_maps B hh hk))
     = snd (fold (maps_step B hh hk) (bin_and_limits hk)
              (map_of (map (\<lambda>l. (l, replicate (length (hk_df hk)) (Num 0))) (maps_labs B hh)), [Maps_Start]))
       @ [Maps_Finished]"
  unfolding calc_maps_def by (simp_all add: Let_def case_prod_beta)

lemma map_of_replicate:
  "map_of (map (\<lambda>l. (l, v)) labs) l = (if l \<in> set labs then Some v else None)"
  by (induction labs) auto

lemma calc_maps_at:
  assumes "distinct (map fst (hk_shells hk))" "i < length (hk_df hk)"
    and "(r_bin (hk_df hk ! i), x, y) \<in> set (hk_shells hk)"
  shows "at_rec i (fst (snd (calc_maps B hh hk)))
         = rec_maps B hh hk (r_bin (hk_df hk ! i)) i (zeros_rec (maps_labs B hh))"
proof -
  let ?tmp = "map_of (map (\<lambda>l. (l, replicate (length (hk_df hk)) (Num 0 :: complex fl))) (maps_labs B hh))"
  have wf: "wf_out (length (hk_df hk)) ?tmp"
    unfolding wf_out_def by (auto simp: map_of_replicate split: if_splits)
  have z: "at_rec i ?tmp = zeros_rec (maps_labs B hh)"
    unfolding at_rec_def zeros_rec_def using assms(2) by (auto simp: map_of_replicate fun_eq_iff)
  from assms(3) have m: "r_bin (hk_df hk ! i) \<in> fst ` set (bin_and_limits hk)"
    unfolding bin_and_limits_def by force
  from assms(1) have d: "distinct (map fst (bin_and_limits hk))" unfolding bin_and_limits_def .
  from maps_fold_at[OF d wf assms(2), of B hh "[Maps_Start]"] m z
  show ?thesis unfolding calc_maps_parts by simp
qed

lemma at_rec_the:
  "at_rec i tmp l = Some v \<Longrightarrow> the (tmp l) ! i = v"
  unfolding at_rec_def by auto

lemma maps_step_log:
  "set lg \<subseteq> set (snd (maps_step B hh hk sh (tmp, lg)))"
  unfolding maps_step_def by (auto simp: Let_def split: prod.splits option.splits)

lemma maps_fold_log:
  "set lg \<subseteq> set (snd (fold (maps_step B hh hk) shs (tmp, lg)))"
proof (induction shs arbitrary: tmp lg)
  case Nil
  then show ?case by simp
next
  case (Cons sh shs)
  obtain t1 l1 where s: "maps_step B hh hk sh (tmp, lg) = (t1, l1)" by (metis surj_pair)
  from maps_step_log[of lg B hh hk sh tmp] s have "set lg \<subseteq> set l1" by simp
  also have "\<dots> \<subseteq> set (snd (fold (maps_step B hh hk) shs (t1, l1)))" by (rule Cons.IH)
  finally show ?case using s by simp
qed

lemma put_dom: "dom (put l sel vals tmp) = dom tmp"
  unfolding put_def by (auto split: option.splits)

lemma maps_step_dom: "dom (fst (maps_step B hh hk sh (tmp, lg))) = dom tmp"
  unfolding maps_step_def by (simp add: Let_def put_dom split: prod.splits option.splits)

lemma maps_fold_dom: "dom (fst (fold (maps_step B hh hk) shs (tmp, lg))) = dom tmp"
proof (induction shs arbitrary: tmp lg)
  case Nil
  then show ?case by simp
next
  case (Cons sh shs)
  obtain t1 l1 where s: "maps_step B hh hk sh (tmp, lg) = (t1, l1)" by (metis surj_pair)
  from maps_step_dom[of B hh hk sh tmp lg] s have "dom t1 = dom tmp" by simp
  with Cons.IH[of t1 l1] s show ?case by simp
qed

lemma calc_maps_dom: "dom (fst (snd (calc_maps B hh hk))) = set (maps_labs B hh)"
  unfolding calc_maps_parts maps_fold_dom
  by (auto simp: dom_def map_of_replicate)

lemma rec_maps_nohalf:
  "rec_maps B False hk b i (zeros_rec (maps_labs B False)) ''DELFWT''
     = Some (Num (column ''FP'' (hk_df hk) ! i) - cplx (hk_D hk b) * Num (column ''FC'' (hk_df hk) ! i))"
  unfolding rec_maps_def by (simp add: Let_def put1_def zeros_rec_def maps_labs_def)

lemma rec_maps_noscale:
  "rec_maps B True hk b i (zeros_rec (maps_labs B True)) ''DELFWT_noscale''
     = Some ((Num (column ''FP'' (hk_df hk) ! i) - cplx (hk_D hk b) * Num (column ''FC'' (hk_df hk) ! i))
               * cplx (hk_S hk b) / cplx (hk_S hk b + hk_var_noise hk b))"
  "rec_maps B True hk b i (zeros_rec (maps_labs B True)) ''FWT_noscale''
     = Some ((Num (column ''FP'' (hk_df hk) ! i) * cplx (hk_S hk b)
                + cplx (hk_var_noise hk b) * cplx (hk_D hk b) * Num (column ''FC'' (hk_df hk) ! i))
               / cplx (hk_S hk b + hk_var_noise hk b))"
  unfolding rec_maps_def
  by (simp_all add: Let_def put1_def zeros_rec_def maps_labs_def split: option.splits)

lemma rec_maps_skip:
  assumes "skip_norm (norm_fo hk b)"
  shows "rec_maps B True hk b i (zeros_rec (maps_labs B True)) l
         = (if l = ''DELFWT_noscale'' then Some (raw_delfwt hk b i)
            else if l = ''FWT_noscale'' then Some (raw_fwt hk b i)
            else if l \<in> set (maps_labs B True) then Some (Num 0) else None)"
  using assms unfolding rec_maps_def norm_fo_def raw_delfwt_def raw_fwt_def
  by (simp add: Let_def put1_def zeros_rec_def maps_labs_def)

lemma rec_maps_norm_None:
  assumes "\<not> skip_norm (norm_fo hk b)"
  shows "rec_maps None True hk b i (zeros_rec (maps_labs None True)) ''DELFWT''
           = Some (raw_delfwt hk b i / cplx (norm_fo hk b))"
    and "rec_maps None True hk b i (zeros_rec (maps_labs None True)) ''FWT''
           = Some (raw_fwt hk b i / cplx (norm_fo hk b))"
  using assms unfolding rec_maps_def norm_fo_def raw_delfwt_def raw_fwt_def
  by (simp_all add: Let_def put1_def zeros_rec_def maps_labs_def)

lemma rec_maps_norm_Some:
  assumes "\<not> skip_norm (norm_fo hk b)"
  shows "rec_maps (Some bb) True hk b i (zeros_rec (maps_labs (Some bb) True)) ''DELFWT_b0''
           = Some (raw_delfwt hk b i / cplx (norm_fo hk b))"
    and "rec_maps (Some bb) True hk b i (zeros_rec (maps_labs (Some bb) True)) ''FWT_b0''
           = Some (raw_fwt hk b i / cplx (norm_fo hk b))"
    and "rec_maps (Some bb) True hk b i (zeros_rec (maps_labs (Some bb) True)) ''DELFWT''
           = Some ((Num (column ''FP'' (hk_df hk) ! i) - cplx (hk_D hk b) * Num (column ''FC'' (hk_df hk) ! i))
                    * cplx (hk_S hk b)
                    * cplx (np_exp (Num (- bb) * (Num 1 / Num ((r_d (hk_df hk ! i))\<^sup>2)) / Num 4))
                    / cplx (hk_S hk b * np_exp (Num (- bb) * (Num 1 / Num ((r_d (hk_df hk ! i))\<^sup>2)) / Num 2)
                             + hk_var_noise hk b)
                    / cplx (norm_fo hk b))"
    and "rec_maps (Some bb) True hk b i (zeros_rec (maps_labs (Some bb) True)) ''FWT''
           = Some ((Num (column ''FP'' (hk_df hk) ! i)
                       * cplx (hk_S hk b * np_exp (Num (- bb) * (Num 1 / Num ((r_d (hk_df hk ! i))\<^sup>2)) / Num 2))
                     + cplx (hk_var_noise hk b) * cplx (hk_D hk b) * Num (column ''FC'' (hk_df hk) ! i))
                    / cplx (hk_S hk b * np_exp (Num (- bb) * (Num 1 / Num ((r_d (hk_df hk ! i))\<^sup>2)) / Num 2)
                             + hk_var_noise hk b)
                    / cplx (norm_fo hk b)
                    / cplx (np_exp (Num (- bb) * (Num 1 / Num ((r_d (hk_df hk ! i))\<^sup>2)) / Num 4)))"
  using assms unfolding rec_maps_def norm_fo_def raw_delfwt_def raw_fwt_def
  by (simp_all add: Let_def put1_def zeros_rec_def maps_labs_def)

lemma rec_maps_raw:
  "rec_maps B True hk b i (zeros_rec (maps_labs B True)) ''DELFWT_noscale'' = Some (raw_delfwt hk b i)"
  "rec_maps B True hk b i (zeros_rec (maps_labs B True)) ''FWT_noscale'' = Some (raw_fwt hk b i)"
  unfolding raw_delfwt_def raw_fwt_def by (rule rec_maps_noscale)+

lemma fl_div_zero: "x / Num 0 = (NaN :: 'a::division_ring fl)"
  by (cases x) simp_all

lemma cplx_Num [simp]: "cplx (Num x) = Num (complex_of_real x)" "cplx NaN = NaN"
  unfolding cplx_def by simp_all

lemma raw_unguarded:
  "hk_S hk b + hk_var_noise hk b = Num 0 \<Longrightarrow> raw_delfwt hk b i = NaN \<and> raw_fwt hk b i = NaN"
  unfolding raw_delfwt_def raw_fwt_def by (simp add: fl_div_zero)

lemma hk_perfect_stats_eval:
  "hk_df hk_perfect_stats = hk_df hk_perfect"
  "hk_shells hk_perfect_stats = [(1, 2, 2)]"
  "hk_var_noise hk_perfect_stats 1 = Num 0"
  "hk_D hk_perfect_stats 1 = Num 1"
  "hk_S hk_perfect_stats 1 = Num 0"
  unfolding hk_perfect_stats_def calc_D_and_S_def calc_noise_var_def bin_and_limits_def
  by (simp_all add: hk_perfect_def D_and_S_step_def noise_step_def Let_def mk_row_def masked_def
        column_def bin_sel_def np_var_def np_average_def np_mean_def fl_sum_def abs2_def cmod_power2)

lemma maps_example_eval:
  "distinct (map fst (hk_shells hk_maps_example))"
  "length (hk_df hk_maps_example) = 3"
  "r_bin (hk_df hk_maps_example ! 0) = 1"
  "r_bin (hk_df hk_maps_example ! 2) = 2"
  "r_d (hk_df hk_maps_example ! 0) = 2"
  "(1, 2, 2) \<in> set (hk_shells hk_maps_example)"
  "(2, 1, 1) \<in> set (hk_shells hk_maps_example)"
  "column ''FP'' (hk_df hk_maps_example) ! 0 = 3"
  "column ''FC'' (hk_df hk_maps_example) ! 0 = 1"
  "hk_D hk_maps_example b = Num 2"
  "hk_S hk_maps_example b = Num 1"
  "hk_var_noise hk_maps_example b = Num 1"
  "hk_FSCfull hk_maps_example b = Num 1"
  "masked (column ''FP'' (hk_df hk_maps_example)) (bin_sel 1 hk_maps_example) = [3, 1]"
  "masked (column ''FP'' (hk_df hk_maps_example)) (bin_sel 2 hk_maps_example) = [5]"
  "masked (map r_d (hk_df hk_maps_example)) (bin_sel 1 hk_maps_example) = [2, 2]"
  by (simp_all add: hk_maps_example_def mk_row_def masked_def column_def bin_sel_def)

lemma std_eval:
  "np_std [3, 1] = Num 1" "np_std [5] = Num 0"
  by (simp_all add: np_std_def np_var_def np_average_def np_mean_def fl_sum_def abs2_def cmod_power2)

lemma skip_norm_iff: "skip_norm n = (n = NaN \<or> (\<exists>v. n = Num v \<and> v < 1 / 10 ^ 10))"
  by (cases n) auto

lemma maps_step_skip_log:
  "skip_norm (norm_fo hk b) \<Longrightarrow>
     Maps_Skip b (np_std (masked (column ''FP'' (hk_df hk)) (bin_sel b hk))) (hk_FSCfull hk b)
       \<in> set (snd (maps_step B True hk (b, x, y) (tmp, lg)))"
  unfolding maps_step_def norm_fo_def by (simp add: Let_def)

lemma maps_fold_skip:
  assumes "(b, x, y) \<in> set shs" "skip_norm (norm_fo hk b)"
  shows "Maps_Skip b (np_std (masked (column ''FP'' (hk_df hk)) (bin_sel b hk))) (hk_FSCfull hk b)
           \<in> set (snd (fold (maps_step B True hk) shs (tmp, lg)))"
  using assms(1)
proof (induction shs arbitrary: tmp lg)
  case Nil
  then show ?case by simp
next
  case (Cons sh shs)
  obtain t1 l1 where s: "maps_step B True hk sh (tmp, lg) = (t1, l1)" by (metis surj_pair)
  show ?case
  proof (cases "sh = (b, x, y)")
    case True
    from maps_step_skip_log[OF assms(2), of B x y tmp lg] s True
    have "Maps_Skip b (np_std (masked (column ''FP'' (hk_df hk)) (bin_sel b hk))) (hk_FSCfull hk b) \<in> set l1"
      by simp
    with maps_fold_log[of l1 B True hk shs t1] s show ?thesis by auto
  next
    case False
    with Cons.prems have "(b, x, y) \<in> set shs" by simp
    from Cons.IH[OF this, of t1 l1] s show ?thesis by simp
  qed
qed

lemma norm_example:
  "norm_fo hk_maps_example 1 = Num 1" "norm_fo hk_maps_example 2 = Num 0"
  unfolding norm_fo_def by (simp_all add: maps_example_eval std_eval)

lemma raw_example:
  "raw_delfwt hk_maps_example 1 0 = Num (1 / 2)" "raw_fwt hk_maps_example 1 0 = Num (5 / 2)"
  unfolding raw_delfwt_def raw_fwt_def by (simp_all add: maps_example_eval)

lemma fl_div_div: "x / a / b = x / (a * b)" for x :: "'a::field fl"
  by (cases x; cases a; cases b) simp_all

lemma cplx_mult: "cplx (a * b) = cplx a * cplx b"
  by (cases a; cases b) simp_all

lemma maps_step_row_log:
  "\<not> skip_norm (norm_fo hk b) \<Longrightarrow>
     \<exists>u v. Maps_Row b (norm_fo hk b)
             (np_std (masked (column ''FP'' (hk_df hk)) (bin_sel b hk)))
             (np_average (map (\<lambda>d. atten 2 bb d * hk_FSCfull hk b
                                     / (Num 1 + (atten 2 bb d - Num 1) * hk_FSCfull hk b))
                            (masked (map r_d (hk_df hk)) (bin_sel b hk))))
             (np_average (map (atten 4 bb) (masked (map r_d (hk_df hk)) (bin_sel b hk))))
             u v
       \<in> set (snd (maps_step (Some bb) True hk (b, x, y) (tmp, lg)))"
  unfolding maps_step_def norm_fo_def atten_def by (auto simp: Let_def comp_def)

lemma maps_fold_row:
  assumes "(b, x, y) \<in> set shs" "\<not> skip_norm (norm_fo hk b)"
  shows "\<exists>u v. Maps_Row b (norm_fo hk b)
             (np_std (masked (column ''FP'' (hk_df hk)) (bin_sel b hk)))
             (np_average (map (\<lambda>d. atten 2 bb d * hk_FSCfull hk b
                                     / (Num 1 + (atten 2 bb d - Num 1) * hk_FSCfull hk b))
                            (masked (map r_d (hk_df hk)) (bin_sel b hk))))
             (np_average (map (atten 4 bb) (masked (map r_d (hk_df hk)) (bin_sel b hk))))
             u v
       \<in> set (snd (fold (maps_step (Some bb) True hk) shs (tmp, lg)))"
  using assms(1)
proof (induction shs arbitrary: tmp lg)
  case Nil
  then show ?case by simp
next
  case (Cons sh shs)
  obtain t1 l1 where s: "maps_step (Some bb) True hk sh (tmp, lg) = (t1, l1)" by (metis surj_pair)
  show ?case
  proof (cases "sh = (b, x, y)")
    case True
    from maps_step_row_log[OF assms(2), of bb x y tmp lg] s True
    obtain u v where "Maps_Row b (norm_fo hk b)
             (np_std (masked (column ''FP'' (hk_df hk)) (bin_sel b hk)))
             (np_average (map (\<lambda>d. atten 2 bb d * hk_FSCfull hk b
                                     / (Num 1 + (atten 2 bb d - Num 1) * hk_FSCfull hk b))
                            (masked (map r_d (hk_df hk)) (bin_sel b hk))))
             (np_average (map (atten 4 bb) (masked (map r_d (hk_df hk)) (bin_sel b hk))))
             u v \<in> set l1" by auto
    with maps_fold_log[of l1 "Some bb" True hk shs t1] s show ?thesis by auto
  next
    case False
    with Cons.prems have "(b, x, y) \<in> set shs" by simp
    from Cons.IH[OF this, of t1 l1] s show ?thesis by simp
  qed
qed

lemma atten_zero: "d \<noteq> 0 \<Longrightarrow> c \<noteq> 0 \<Longrightarrow> atten c 0 d = Num 1"
  unfolding atten_def np_exp_def by simp

lemma B_example_eval:
  "distinct (map fst (hk_shells hk_B_example))"
  "length (hk_df hk_B_example) = 4"
  "r_bin (hk_df hk_B_example ! 0) = 1"
  "r_bin (hk_df hk_B_example ! 2) = 2"
  "r_d (hk_df hk_B_example ! 0) = 1"
  "r_d (hk_df hk_B_example ! 2) = 1 / 2"
  "(1, 1, 1) \<in> set (hk_shells hk_B_example)"
  "(2, 1 / 2, 1 / 2) \<in> set (hk_shells hk_B_example)"
  "column ''FP'' (hk_df hk_B_example) ! 0 = 3"
  "column ''FC'' (hk_df hk_B_example) ! 0 = 1"
  "column ''FP'' (hk_df hk_B_example) ! 2 = 3"
  "column ''FC'' (hk_df hk_B_example) ! 2 = 1"
  "hk_D hk_B_example b = Num 2"
  "hk_S hk_B_example b = Num 1"
  "hk_var_noise hk_B_example b = Num 1"
  "hk_FSCfull hk_B_example 1 = Num 1"
  "hk_FSCfull hk_B_example 2 = Num (1 / 10 ^ 22)"
  "masked (column ''FP'' (hk_df hk_B_example)) (bin_sel 1 hk_B_example) = [3, 1]"
  "masked (column ''FP'' (hk_df hk_B_example)) (bin_sel 2 hk_B_example) = [3, 1]"
  by (simp_all add: hk_B_example_def mk_row_def masked_def column_def bin_sel_def)

lemma sqrt_small: "sqrt (1 / 10000000000000000000000) = 1 / 100000000000"
  by (rule real_sqrt_unique) (simp_all add: power2_eq_square)

lemma norm_B_example:
  "norm_fo hk_B_example 1 = Num 1" "norm_fo hk_B_example 2 = Num (1 / 10 ^ 11)"
  unfolding norm_fo_def by (simp_all add: B_example_eval std_eval sqrt_small)

lemma atten_eval:
  "atten 4 4 1 = Num (exp (- 1))" "atten 2 4 1 = Num (exp (- 2))"
  "atten 4 4 (1 / 2) = Num (exp (- 4))" "atten 2 4 (1 / 2) = Num (exp (- 8))"
  unfolding atten_def np_exp_def by (simp_all add: power2_eq_square)

lemma raw_B_example:
  "raw_delfwt hk_B_example 1 0 = Num (1 / 2)" "raw_fwt hk_B_example 1 0 = Num (5 / 2)"
  unfolding raw_delfwt_def raw_fwt_def by (simp_all add: B_example_eval)

lemma B_values:
  "(Num 3 - cplx (Num 2) * Num 1) * cplx (Num 1) * cplx (Num (exp (- 1)))
      / cplx ((Num 1 * Num (exp (- 2)) + Num 1) * Num 1)
     = Num (complex_of_real (exp (- 1) / (exp (- 2) + 1)))"
  "(Num 3 * cplx (Num 1 * Num (exp (- 2))) + cplx (Num 1) * cplx (Num 2) * Num 1)
      / cplx ((Num 1 * Num (exp (- 2)) + Num 1) * Num 1 * Num (exp (- 1)))
     = Num (complex_of_real ((3 * exp (- 2) + 2) / ((exp (- 2) + 1) * exp (- 1))))"
proof -
  have p: "exp (- 2 :: real) + 1 \<noteq> 0" using exp_gt_zero[of "- 2 :: real"] by linarith
  then have q: "complex_of_real (exp (- 2)) + 1 \<noteq> 0"
    by (metis of_real_1 of_real_add of_real_eq_0_iff)
  show "(Num 3 - cplx (Num 2) * Num 1) * cplx (Num 1) * cplx (Num (exp (- 1)))
      / cplx ((Num 1 * Num (exp (- 2)) + Num 1) * Num 1)
     = Num (complex_of_real (exp (- 1) / (exp (- 2) + 1)))"
    using p q by simp
  show "(Num 3 * cplx (Num 1 * Num (exp (- 2))) + cplx (Num 1) * cplx (Num 2) * Num 1)
      / cplx ((Num 1 * Num (exp (- 2)) + Num 1) * Num 1 * Num (exp (- 1)))
     = Num (complex_of_real ((3 * exp (- 2) + 2) / ((exp (- 2) + 1) * exp (- 1))))"
    using p q by simp
qed
section \<open>Theorems about the binning\<close>

text \<open>C6: the binning terminates on every input. The forward loop is a total function
  whose index only grows and the backward loop one whose index only falls, so each is one run
  over the shell list, and together they enter no more merges than there are shells; on the
  table they build, the chain resolution returns (\<open>setup_relion_binning\<close> is \<open>Some\<close>, which
  also excludes the division by zero of the backward loop), and that table has no cycle.\<close>

theorem setup_relion_binning_terminates:
  "\<exists>r. setup_relion_binning max_edge d = Some r
      \<and> length (table_raw r) \<le> length (initial_bin_counts (raw_bins max_edge d))
      \<and> (\<forall>k. (k, k) \<notin> {(a, b). map_of (table_raw r) a = Some b}\<^sup>+)"
proof -
  from merge_passes_ok obtain bc mt c
    where mp: "merge_passes (raw_bins max_edge d) = Some (bc, mt)" and tw: "towards c mt" by blast
  from resolve_chains_terminates[OF tw] obtain mt' where rc: "resolve_chains mt = Some mt'" ..
  have "\<And>k. (k, k) \<notin> {(a, b). map_of mt a = Some b}\<^sup>+"
  proof
    fix k assume "(k, k) \<in> {(a, b). map_of mt a = Some b}\<^sup>+"
    from towards_trancl[OF tw this] show False by simp
  qed
  with mp rc merge_passes_length[OF mp] show ?thesis
    unfolding setup_relion_binning_def by (simp add: Let_def)
qed

theorem setup_relion_binning_terminates_witness:
  "\<exists>r. setup_relion_binning 10 [10, 5, 33 / 10] = Some r
      \<and> length (table_raw r) \<le> length (initial_bin_counts (raw_bins 10 [10, 5, 33 / 10]))
      \<and> (\<forall>k. (k, k) \<notin> {(a, b). map_of (table_raw r) a = Some b}\<^sup>+)"
  by (rule setup_relion_binning_terminates[of 10 "[10, 5, 33 / 10]"])
text \<open>C7: when \<open>setup_relion_binning\<close> returns, the table after the chain resolution has the
  keys of the table before it, sends every key to a shell that the original table reaches from
  it and that is not a key itself, no kept shell is a key, and rewriting \<open>df["bin"]\<close> through
  the table a second time changes nothing.\<close>

theorem merge_table_resolved:
  assumes "setup_relion_binning max_edge d = Some r"
  shows "resolve_chains (table_raw r) = Some (table_resolved r)
       \<and> map fst (table_resolved r) = map fst (table_raw r)
       \<and> (\<forall>k t. map_of (table_resolved r) k = Some t \<longrightarrow>
             map_of (table_resolved r) t = None \<and> (k, t) \<in> {(a, b). map_of (table_raw r) a = Some b}\<^sup>+)
       \<and> (\<forall>(b, g)\<in>set (bin_and_indices r). map_of (table_resolved r) b = None)
       \<and> rewrite_bins (table_resolved r) (df_bin r) = df_bin r"
proof -
  from assms obtain bc mt mt' where mp: "merge_passes (raw_bins max_edge d) = Some (bc, mt)"
    and rc: "resolve_chains mt = Some mt'"
    and r: "r = \<lparr> df_bin = rewrite_bins mt' (raw_bins max_edge d),
              bin_and_indices = filter (\<lambda>(i_bin, indices). map_of mt' i_bin = None) bc,
              binned_df = map (\<lambda>(i_bin, indices). (i_bin, the (map_of (merge_ranges mt' (initial_bin_ranges d (initial_bin_counts (raw_bins max_edge d)))) i_bin)))
                   (filter (\<lambda>(i_bin, indices). map_of mt' i_bin = None) bc),
              table_raw = mt, table_resolved = mt' \<rparr>"
    unfolding setup_relion_binning_def by (auto simp: Let_def split: option.splits)
  from resolve_chains_resolved[OF rc] have res: "resolved mt'" .
  have tr: "map fst mt' = map fst mt \<and> (\<forall>k t. map_of mt' k = Some t \<longrightarrow> (k, t) \<in> {(a, b). map_of mt a = Some b}\<^sup>+)"
    by (rule resolve_chains_trancl[OF rc]) auto
  have nk: "\<And>k t. map_of mt' k = Some t \<Longrightarrow> map_of mt' t = None"
  proof -
    fix k t assume kt: "map_of mt' k = Some t"
    then have "k \<in> set (map fst mt')" by (metis map_of_SomeD fst_conv image_eqI set_map)
    with res kt show "map_of mt' t = None" unfolding resolved_def by blast
  qed
  have idem: "rewrite_bins mt' (rewrite_bins mt' (raw_bins max_edge d)) = rewrite_bins mt' (raw_bins max_edge d)"
    unfolding rewrite_bins_resolved[OF res] map_map comp_def
    by (rule map_cong[OF refl]) (auto split: option.splits dest: nk)
  show ?thesis
    unfolding r using rc tr nk idem by auto
qed

theorem merge_table_resolved_witness:
  "setup_relion_binning 10 [10, 5, 33 / 10] =
     Some \<lparr> df_bin = [3, 3, 3], bin_and_indices = [(3, [0, 1, 2])], binned_df = [(3, 10, 33 / 10)],
            table_raw = [(1, 2), (2, 3)], table_resolved = [(1, 3), (2, 3)] \<rparr>
   \<and> map_of [(1, 3), (2, 3)] (3::int) = (None :: int option)
   \<and> rewrite_bins [(1, 3), (2, 3)] [3, 3, 3] = [3, 3, 3]"
proof -
  have e: "setup_relion_binning 10 [10, 5, 33 / 10] =
     Some \<lparr> df_bin = [3, 3, 3], bin_and_indices = [(3, [0, 1, 2])], binned_df = [(3, 10, 33 / 10)],
            table_raw = [(1, 2), (2, 3)], table_resolved = [(1, 3), (2, 3)] \<rparr>"
    by code_simp
  from merge_table_resolved[OF e] e show ?thesis by simp
qed


section \<open>Theorems about the pipeline\<close>

text \<open>C5: after \<open>calc_noise_var\<close>, a shell with at least 3 members has the noise variance
  \<open>var(half1 - half2)/4\<close> and the full-data correlation \<open>2r/(1 + r)\<close>, \<open>r\<close> the correlation
  of the two half data sets on the shell; a shell with fewer than 3 members is skipped with a
  warning in the log and keeps the value zero in both columns.\<close>

theorem calc_noise_var_shell:
  assumes "distinct (map fst (hk_shells hk))" and "(b, d_max, d_min) \<in> set (hk_shells hk)"
  shows "(3 \<le> length (masked (column ''F_map1'' (hk_df hk)) (bin_sel b hk)) \<longrightarrow>
            hk_var_noise (fst (calc_noise_var hk)) b
              = np_var (map2 (-) (masked (column ''F_map1'' (hk_df hk)) (bin_sel b hk)) (masked (column ''F_map2'' (hk_df hk)) (bin_sel b hk))) / Num 4
          \<and> hk_FSCfull (fst (calc_noise_var hk)) b
              = Num 2 * np_corrcoef (masked (column ''F_map1'' (hk_df hk)) (bin_sel b hk)) (masked (column ''F_map2'' (hk_df hk)) (bin_sel b hk))
                 / (Num 1 + np_corrcoef (masked (column ''F_map1'' (hk_df hk)) (bin_sel b hk)) (masked (column ''F_map2'' (hk_df hk)) (bin_sel b hk))))
       \<and> (length (masked (column ''F_map1'' (hk_df hk)) (bin_sel b hk)) < 3 \<longrightarrow>
            hk_var_noise (fst (calc_noise_var hk)) b = Num 0
          \<and> hk_FSCfull (fst (calc_noise_var hk)) b = Num 0
          \<and> Noise_Skip b (length (masked (column ''F_map1'' (hk_df hk)) (bin_sel b hk))) \<in> set (snd (calc_noise_var hk)))"
  using noise_fold_this[OF assms[unfolded bin_and_limits_def[symmetric, of hk]],
          of "(hk \<lparr> hk_var_noise := (\<lambda>_. Num 0), hk_FSCfull := (\<lambda>_. Num 0) \<rparr>, [Noise_Header])"]
  unfolding noise_post_def calc_noise_var_def masked_bin_sel by (simp add: Let_def)

theorem calc_noise_var_shell_witness:
  "hk_var_noise (fst (calc_noise_var hk_example)) 1 = Num (2 / 3)
   \<and> hk_FSCfull (fst (calc_noise_var hk_example)) 1
        = Num 2 * np_corrcoef [3, 1, 0] [1, 1, 2] / (Num 1 + np_corrcoef [3, 1, 0] [1, 1, 2])
   \<and> hk_var_noise (fst (calc_noise_var hk_example)) 2 = Num 0
   \<and> hk_FSCfull (fst (calc_noise_var hk_example)) 2 = Num 0
   \<and> Noise_Skip 2 1 \<in> set (snd (calc_noise_var hk_example))"
proof -
  have h1: "distinct (map fst (hk_shells hk_example))" by (simp add: hk_example_def)
  have h2: "(1, 2, 2) \<in> set (hk_shells hk_example)" by (simp add: hk_example_def)
  have h3: "(2, 1, 1) \<in> set (hk_shells hk_example)" by (simp add: hk_example_def)
  note t1 = calc_noise_var_shell[OF h1 h2, unfolded ex_cols]
  note t2 = calc_noise_var_shell[OF h1 h3, unfolded ex_cols]
  from t1 t2 show ?thesis unfolding ex_var[symmetric] by simp
qed

text \<open>C4: after \<open>calc_D_and_S\<close>, every shell has \<open>D = sum(Re(Fo conj(Fc))) / sum(|Fc|**2)\<close>
  over its members and, with half maps, \<open>S = max(0, mean(|Fo - D Fc|**2) - var_noise)\<close>,
  which is the larger of 0 and that difference when the difference is a number; \<open>S\<close> is a
  number and is never negative.\<close>

theorem calc_D_and_S_shell:
  assumes "distinct (map fst (hk_shells hk))" and "(b, d_max, d_min) \<in> set (hk_shells hk)"
  shows "hk_D (fst (calc_D_and_S has_halfmaps hk)) b
           = Num (sum_list (map2 (\<lambda>fo fc. Re (fo * cnj fc))
                    (masked (column ''FP'' (hk_df hk)) (bin_sel b hk))
                    (masked (column ''FC'' (hk_df hk)) (bin_sel b hk))))
             / Num (sum_list (map (\<lambda>fc. (cmod fc)\<^sup>2) (masked (column ''FC'' (hk_df hk)) (bin_sel b hk))))
       \<and> (has_halfmaps \<longrightarrow>
            hk_S (fst (calc_D_and_S has_halfmaps hk)) b
              = py_max0 (np_average (map2 (\<lambda>fo fc. abs2 (Num fo - cplx (hk_D (fst (calc_D_and_S has_halfmaps hk)) b) * Num fc))
                            (masked (column ''FP'' (hk_df hk)) (bin_sel b hk))
                            (masked (column ''FC'' (hk_df hk)) (bin_sel b hk)))
                         - hk_var_noise hk b))
       \<and> (\<forall>v. has_halfmaps \<and>
              np_average (map2 (\<lambda>fo fc. abs2 (Num fo - cplx (hk_D (fst (calc_D_and_S has_halfmaps hk)) b) * Num fc))
                            (masked (column ''FP'' (hk_df hk)) (bin_sel b hk))
                            (masked (column ''FC'' (hk_df hk)) (bin_sel b hk)))
                 - hk_var_noise hk b = Num v
            \<longrightarrow> hk_S (fst (calc_D_and_S has_halfmaps hk)) b = Num (max 0 v))
       \<and> (\<exists>s. hk_S (fst (calc_D_and_S has_halfmaps hk)) b = Num s \<and> 0 \<le> s)"
proof -
  let ?st = "(hk \<lparr> hk_D := (\<lambda>_. Num 0), hk_S := (\<lambda>_. Num 0) \<rparr>, [] :: fstats_row list)"
  from assms have "(b, d_max, d_min) \<in> set (bin_and_limits hk)" "distinct (map fst (bin_and_limits hk))"
    unfolding bin_and_limits_def by simp_all
  from D_and_S_fold_this[OF this(2,1), of has_halfmaps ?st]
  have p: "D_and_S_post has_halfmaps (fst ?st) b (fst (calc_D_and_S has_halfmaps hk))"
    unfolding calc_D_and_S_def .
  then have d: "hk_D (fst (calc_D_and_S has_halfmaps hk)) b
           = Num (sum_list (map2 (\<lambda>fo fc. Re (fo * cnj fc))
                    (masked (column ''FP'' (hk_df hk)) (bin_sel b hk))
                    (masked (column ''FC'' (hk_df hk)) (bin_sel b hk))))
             / Num (sum_list (map (\<lambda>fc. (cmod fc)\<^sup>2) (masked (column ''FC'' (hk_df hk)) (bin_sel b hk))))"
    unfolding D_and_S_post_def masked_bin_sel by (simp add: Let_def)
  from p have s: "hk_S (fst (calc_D_and_S has_halfmaps hk)) b
              = (if has_halfmaps then py_max0 (np_average (map2 (\<lambda>fo fc. abs2 (Num fo - cplx (hk_D (fst (calc_D_and_S has_halfmaps hk)) b) * Num fc))
                            (masked (column ''FP'' (hk_df hk)) (bin_sel b hk))
                            (masked (column ''FC'' (hk_df hk)) (bin_sel b hk)))
                         - hk_var_noise hk b) else Num 0)"
    unfolding D_and_S_post_def masked_bin_sel by (simp add: Let_def)
  have nn: "\<exists>s. hk_S (fst (calc_D_and_S has_halfmaps hk)) b = Num s \<and> 0 \<le> s"
    unfolding s using py_max0_nonneg by (cases has_halfmaps) auto
  from d s nn show ?thesis by (auto simp del: py_max0.simps simp: py_max0_max)
qed

theorem calc_D_and_S_shell_witness:
  "hk_D (fst (calc_D_and_S True hk_example)) 1 = Num (4 / 3)
   \<and> hk_S (fst (calc_D_and_S True hk_example)) 1 = Num (1 / 9)"
proof -
  have h1: "distinct (map fst (hk_shells hk_example))" by (simp add: hk_example_def)
  have h2: "(1, 2, 2) \<in> set (hk_shells hk_example)" by (simp add: hk_example_def)
  have v: "hk_var_noise hk_example 1 = Num (1 / 9)" by (simp add: hk_example_def)
  note t = calc_D_and_S_shell[OF h1 h2, of True, unfolded ex_cols v]
  from t have d: "hk_D (fst (calc_D_and_S True hk_example)) 1 = Num (4 / 3)"
    unfolding ex_D by blast
  from t have "hk_S (fst (calc_D_and_S True hk_example)) 1
      = py_max0 (np_average (map2 (\<lambda>fo fc. abs2 (Num fo - cplx (hk_D (fst (calc_D_and_S True hk_example)) 1) * Num fc))
                   [2, 1, 1] [1, 1, 1]) - Num (1 / 9))" by blast
  then have "hk_S (fst (calc_D_and_S True hk_example)) 1 = Num (1 / 9)"
    unfolding d ex_S by simp
  with d show ?thesis by simp
qed

text \<open>C10: the code does not reach the point where the observed amplitude is the mean of
  the two half maps. \<open>mask_and_fft_maps\<close> builds the object with \<open>False\<close> in the place of \<open>df\<close>
  and the frame in the place of \<open>binned_df\<close>: with two maps \<open>merge_asu_data\<close> raises
  \<open>TypeError\<close> before \<open>FP\<close> is assigned; with one map the function returns an object whose
  \<open>df\<close> is \<open>False\<close>, the column \<open>FP\<close> sitting in \<open>binned_df\<close>, and the merge of the model
  amplitudes that follows in \<open>main\<close> raises \<open>TypeError\<close> as well.\<close>

theorem mask_and_fft_maps_raises:
  "mask_and_fft_maps [a1, a2] = Inl TypeError
   \<and> mask_and_fft_maps [a1]
       = Inr \<lparr> ho_df = Py_Bool False, ho_binned_df = Frame (df_from_asu_data a1 ''FP'') \<rparr>
   \<and> merge_asu_data fc ''FC''
         \<lparr> ho_df = Py_Bool False, ho_binned_df = Frame (df_from_asu_data a1 ''FP'') \<rparr>
       = Inl TypeError"
  by (simp add: merge_asu_data_def HklData_def)

theorem mask_and_fft_maps_raises_witness:
  "mask_and_fft_maps [[((1, 0, 0), 1), ((0, 1, 0), 2)], [((0, 1, 0), 4), ((1, 0, 0), 3)]] = Inl TypeError
   \<and> mask_and_fft_maps [[((1, 0, 0), 1), ((0, 1, 0), 2)]]
       = Inr \<lparr> ho_df = Py_Bool False,
               ho_binned_df = Frame [\<lparr> r_hkl = (1, 0, 0), r_cols = [(''FP'', 1)], r_d = 0, r_bin = 0 \<rparr>,
                                     \<lparr> r_hkl = (0, 1, 0), r_cols = [(''FP'', 2)], r_d = 0, r_bin = 0 \<rparr>] \<rparr>"
  using mask_and_fft_maps_raises[of "[((1, 0, 0), 1), ((0, 1, 0), 2)]" "[((0, 1, 0), 4), ((1, 0, 0), 3)]" "[]"]
  by (simp add: df_from_asu_data_def)

text \<open>C3: for every record of a shell of \<open>binned_df\<close>, without half maps the only output
  is \<open>DELFWT = Fo - D Fc\<close>; with half maps the unnormalised outputs are
  \<open>DELFWT_noscale = (Fo - D Fc) S / (S + varn)\<close> and
  \<open>FWT_noscale = (Fo S + varn D Fc) / (S + varn)\<close>, with the statistics of the record's shell.\<close>

theorem calc_maps_formulas:
  assumes "distinct (map fst (hk_shells hk))" and "i < length (hk_df hk)"
    and "(r_bin (hk_df hk ! i), d_max, d_min) \<in> set (hk_shells hk)"
  shows "fst (calc_maps B False hk) = [''DELFWT'']
       \<and> dom (fst (snd (calc_maps B False hk))) = {''DELFWT''}
       \<and> the (fst (snd (calc_maps B False hk)) ''DELFWT'') ! i
           = Num (column ''FP'' (hk_df hk) ! i)
               - cplx (hk_D hk (r_bin (hk_df hk ! i))) * Num (column ''FC'' (hk_df hk) ! i)
       \<and> the (fst (snd (calc_maps B True hk)) ''DELFWT_noscale'') ! i
           = (Num (column ''FP'' (hk_df hk) ! i)
                - cplx (hk_D hk (r_bin (hk_df hk ! i))) * Num (column ''FC'' (hk_df hk) ! i))
              * cplx (hk_S hk (r_bin (hk_df hk ! i)))
              / cplx (hk_S hk (r_bin (hk_df hk ! i)) + hk_var_noise hk (r_bin (hk_df hk ! i)))
       \<and> the (fst (snd (calc_maps B True hk)) ''FWT_noscale'') ! i
           = (Num (column ''FP'' (hk_df hk) ! i) * cplx (hk_S hk (r_bin (hk_df hk ! i)))
                + cplx (hk_var_noise hk (r_bin (hk_df hk ! i))) * cplx (hk_D hk (r_bin (hk_df hk ! i)))
                    * Num (column ''FC'' (hk_df hk) ! i))
              / cplx (hk_S hk (r_bin (hk_df hk ! i)) + hk_var_noise hk (r_bin (hk_df hk ! i)))"
proof -
  note a = calc_maps_at[OF assms]
  have 1: "fst (calc_maps B False hk) = [''DELFWT'']"
    unfolding calc_maps_parts maps_labs_def by simp
  have 2: "dom (fst (snd (calc_maps B False hk))) = {''DELFWT''}"
    unfolding calc_maps_dom maps_labs_def by simp
  have 3: "the (fst (snd (calc_maps B False hk)) ''DELFWT'') ! i
           = Num (column ''FP'' (hk_df hk) ! i)
               - cplx (hk_D hk (r_bin (hk_df hk ! i))) * Num (column ''FC'' (hk_df hk) ! i)"
    by (rule at_rec_the) (simp only: a rec_maps_nohalf)
  have 4: "the (fst (snd (calc_maps B True hk)) ''DELFWT_noscale'') ! i
           = (Num (column ''FP'' (hk_df hk) ! i)
                - cplx (hk_D hk (r_bin (hk_df hk ! i))) * Num (column ''FC'' (hk_df hk) ! i))
              * cplx (hk_S hk (r_bin (hk_df hk ! i)))
              / cplx (hk_S hk (r_bin (hk_df hk ! i)) + hk_var_noise hk (r_bin (hk_df hk ! i)))"
    by (rule at_rec_the) (simp only: a rec_maps_noscale)
  have 5: "the (fst (snd (calc_maps B True hk)) ''FWT_noscale'') ! i
           = (Num (column ''FP'' (hk_df hk) ! i) * cplx (hk_S hk (r_bin (hk_df hk ! i)))
                + cplx (hk_var_noise hk (r_bin (hk_df hk ! i))) * cplx (hk_D hk (r_bin (hk_df hk ! i)))
                    * Num (column ''FC'' (hk_df hk) ! i))
              / cplx (hk_S hk (r_bin (hk_df hk ! i)) + hk_var_noise hk (r_bin (hk_df hk ! i)))"
    by (rule at_rec_the) (simp only: a rec_maps_noscale)
  from 1 2 3 4 5 show ?thesis by (intro conjI)
qed

theorem calc_maps_formulas_witness:
  "the (fst (snd (calc_maps None False hk_maps_example)) ''DELFWT'') ! 0 = Num 1
   \<and> the (fst (snd (calc_maps None True hk_maps_example)) ''DELFWT_noscale'') ! 0 = Num (1 / 2)
   \<and> the (fst (snd (calc_maps None True hk_maps_example)) ''FWT_noscale'') ! 0 = Num (5 / 2)"
proof -
  have h2: "0 < length (hk_df hk_maps_example)" by (simp add: maps_example_eval)
  have h3: "(r_bin (hk_df hk_maps_example ! 0), 2, 2) \<in> set (hk_shells hk_maps_example)"
    by (simp add: maps_example_eval)
  from calc_maps_formulas[OF maps_example_eval(1) h2 h3, of None]
  show ?thesis by (simp add: maps_example_eval)
qed

text \<open>C1, as the code has it: the divisions by \<open>S + varn\<close> are not guarded. With half maps,
  for every record of a shell with \<open>S + varn = 0\<close> the unnormalised coefficients
  \<open>DELFWT_noscale\<close> and \<open>FWT_noscale\<close> are not a number; they are not set to zero.\<close>

theorem calc_maps_zero_denominator:
  assumes "distinct (map fst (hk_shells hk))" and "i < length (hk_df hk)"
    and "(r_bin (hk_df hk ! i), d_max, d_min) \<in> set (hk_shells hk)"
    and "hk_S hk (r_bin (hk_df hk ! i)) + hk_var_noise hk (r_bin (hk_df hk ! i)) = Num 0"
  shows "the (fst (snd (calc_maps B True hk)) ''DELFWT_noscale'') ! i = NaN
       \<and> the (fst (snd (calc_maps B True hk)) ''FWT_noscale'') ! i = NaN"
proof -
  note a = calc_maps_at[OF assms(1,2,3)]
  from raw_unguarded[OF assms(4)]
  have r: "raw_delfwt hk (r_bin (hk_df hk ! i)) i = NaN" "raw_fwt hk (r_bin (hk_df hk ! i)) i = NaN"
    by simp_all
  have "the (fst (snd (calc_maps B True hk)) ''DELFWT_noscale'') ! i = NaN"
    by (rule at_rec_the) (simp only: a rec_maps_raw r)
  moreover have "the (fst (snd (calc_maps B True hk)) ''FWT_noscale'') ! i = NaN"
    by (rule at_rec_the) (simp only: a rec_maps_raw r)
  ultimately show ?thesis by (intro conjI)
qed

theorem calc_maps_zero_denominator_witness:
  "hk_S hk_perfect_stats 1 + hk_var_noise hk_perfect_stats 1 = Num 0
   \<and> the (fst (snd (calc_maps None True hk_perfect_stats)) ''DELFWT_noscale'') ! 1 = NaN
   \<and> the (fst (snd (calc_maps None True hk_perfect_stats)) ''FWT_noscale'') ! 1 = NaN"
proof -
  have h1: "distinct (map fst (hk_shells hk_perfect_stats))" by (simp add: hk_perfect_stats_eval)
  have h2: "1 < length (hk_df hk_perfect_stats)" by (simp add: hk_perfect_stats_eval hk_perfect_def)
  have b: "r_bin (hk_df hk_perfect_stats ! 1) = 1"
    by (simp add: hk_perfect_stats_eval hk_perfect_def mk_row_def)
  have h3: "(r_bin (hk_df hk_perfect_stats ! 1), 2, 2) \<in> set (hk_shells hk_perfect_stats)"
    unfolding b by (simp add: hk_perfect_stats_eval)
  have h4: "hk_S hk_perfect_stats (r_bin (hk_df hk_perfect_stats ! 1))
              + hk_var_noise hk_perfect_stats (r_bin (hk_df hk_perfect_stats ! 1)) = Num 0"
    unfolding b by (simp add: hk_perfect_stats_eval)
  from calc_maps_zero_denominator[OF h1 h2 h3 h4, of None] h4[unfolded b] show ?thesis by simp
qed

text \<open>The claim as the spec states it (zero is written for such a shell) fails on the data
  set \<open>hk_perfect\<close> after \<open>calc_noise_var\<close> and \<open>calc_D_and_S\<close>: both statistics are zero and the
  coefficients of the first record are not zero.\<close>

theorem calc_maps_zero_denominator_counterexample:
  "hk_S hk_perfect_stats 1 + hk_var_noise hk_perfect_stats 1 = Num 0
   \<and> the (fst (snd (calc_maps None True hk_perfect_stats)) ''DELFWT_noscale'') ! 0 \<noteq> Num 0
   \<and> the (fst (snd (calc_maps None True hk_perfect_stats)) ''FWT_noscale'') ! 0 \<noteq> Num 0"
proof -
  have h1: "distinct (map fst (hk_shells hk_perfect_stats))" by (simp add: hk_perfect_stats_eval)
  have h2: "0 < length (hk_df hk_perfect_stats)" by (simp add: hk_perfect_stats_eval hk_perfect_def)
  have b: "r_bin (hk_df hk_perfect_stats ! 0) = 1"
    by (simp add: hk_perfect_stats_eval hk_perfect_def mk_row_def)
  have h3: "(r_bin (hk_df hk_perfect_stats ! 0), 2, 2) \<in> set (hk_shells hk_perfect_stats)"
    unfolding b by (simp add: hk_perfect_stats_eval)
  have h4: "hk_S hk_perfect_stats 1 + hk_var_noise hk_perfect_stats 1 = Num 0"
    by (simp add: hk_perfect_stats_eval)
  note a = calc_maps_at[OF h1 h2 h3, of None True, unfolded b]
  from raw_unguarded[OF h4]
  have r: "raw_delfwt hk_perfect_stats 1 0 = NaN" "raw_fwt hk_perfect_stats 1 0 = NaN" by simp_all
  have "the (fst (snd (calc_maps None True hk_perfect_stats)) ''DELFWT_noscale'') ! 0 = NaN"
    by (rule at_rec_the) (simp only: a rec_maps_raw r)
  moreover have "the (fst (snd (calc_maps None True hk_perfect_stats)) ''FWT_noscale'') ! 0 = NaN"
    by (rule at_rec_the) (simp only: a rec_maps_raw r)
  ultimately show ?thesis using h4 by simp
qed

text \<open>C8: with half maps, for every record of a shell the unnormalised coefficients are
  recorded. When the normalisation factor \<open>n = std(Fo) sqrt(FSCfull)\<close> of the shell is not a
  number or is below \<open>1e-10\<close>, every other output of the record stays zero and the log has
  the warning of that shell; the loop goes on, since the statement holds for every shell of
  the list. Otherwise the normalised outputs (\<open>DELFWT\<close>, \<open>FWT\<close>, with the suffix \<open>_b0\<close> when a
  \<open>B\<close> is given) are the unnormalised ones divided by \<open>n\<close>.\<close>

theorem calc_maps_normalization:
  assumes "distinct (map fst (hk_shells hk))" and "i < length (hk_df hk)"
    and "(r_bin (hk_df hk ! i), d_max, d_min) \<in> set (hk_shells hk)"
  shows "the (fst (snd (calc_maps B True hk)) ''DELFWT_noscale'') ! i = raw_delfwt hk (r_bin (hk_df hk ! i)) i
       \<and> the (fst (snd (calc_maps B True hk)) ''FWT_noscale'') ! i = raw_fwt hk (r_bin (hk_df hk ! i)) i
       \<and> (norm_fo hk (r_bin (hk_df hk ! i)) = NaN
            \<or> (\<exists>v. norm_fo hk (r_bin (hk_df hk ! i)) = Num v \<and> v < 1 / 10 ^ 10) \<longrightarrow>
              (\<forall>l\<in>set (maps_labs B True). l \<noteq> ''DELFWT_noscale'' \<and> l \<noteq> ''FWT_noscale'' \<longrightarrow>
                   the (fst (snd (calc_maps B True hk)) l) ! i = Num 0)
            \<and> Maps_Skip (r_bin (hk_df hk ! i))
                 (np_std (masked (column ''FP'' (hk_df hk)) (bin_sel (r_bin (hk_df hk ! i)) hk)))
                 (hk_FSCfull hk (r_bin (hk_df hk ! i)))
                 \<in> set (snd (snd (calc_maps B True hk))))
       \<and> (\<not> (norm_fo hk (r_bin (hk_df hk ! i)) = NaN
            \<or> (\<exists>v. norm_fo hk (r_bin (hk_df hk ! i)) = Num v \<and> v < 1 / 10 ^ 10)) \<longrightarrow>
              the (fst (snd (calc_maps B True hk)) (''DELFWT'' @ (if B = None then [] else ''_b0''))) ! i
                = raw_delfwt hk (r_bin (hk_df hk ! i)) i / cplx (norm_fo hk (r_bin (hk_df hk ! i)))
            \<and> the (fst (snd (calc_maps B True hk)) (''FWT'' @ (if B = None then [] else ''_b0''))) ! i
                = raw_fwt hk (r_bin (hk_df hk ! i)) i / cplx (norm_fo hk (r_bin (hk_df hk ! i))))"
proof -
  let ?b = "r_bin (hk_df hk ! i)"
  let ?outs = "fst (snd (calc_maps B True hk))"
  note a = calc_maps_at[OF assms, of B True]
  have 1: "the (?outs ''DELFWT_noscale'') ! i = raw_delfwt hk ?b i"
    by (rule at_rec_the) (simp only: a rec_maps_raw)
  have 2: "the (?outs ''FWT_noscale'') ! i = raw_fwt hk ?b i"
    by (rule at_rec_the) (simp only: a rec_maps_raw)
  have 3: "skip_norm (norm_fo hk ?b) \<Longrightarrow>
             (\<forall>l\<in>set (maps_labs B True). l \<noteq> ''DELFWT_noscale'' \<and> l \<noteq> ''FWT_noscale'' \<longrightarrow> the (?outs l) ! i = Num 0)
           \<and> Maps_Skip ?b (np_std (masked (column ''FP'' (hk_df hk)) (bin_sel ?b hk))) (hk_FSCfull hk ?b)
                 \<in> set (snd (snd (calc_maps B True hk)))"
  proof -
    assume sk: "skip_norm (norm_fo hk ?b)"
    have z: "\<And>l. l \<in> set (maps_labs B True) \<Longrightarrow> l \<noteq> ''DELFWT_noscale'' \<Longrightarrow> l \<noteq> ''FWT_noscale'' \<Longrightarrow>
                 the (?outs l) ! i = Num 0"
    proof -
      fix l assume "l \<in> set (maps_labs B True)" "l \<noteq> ''DELFWT_noscale''" "l \<noteq> ''FWT_noscale''"
      then have "rec_maps B True hk ?b i (zeros_rec (maps_labs B True)) l = Some (Num 0)"
        unfolding rec_maps_skip[OF sk] by simp
      then show "the (?outs l) ! i = Num 0"
        by (intro at_rec_the) (simp only: a)
    qed
    from assms(3) have "(?b, d_max, d_min) \<in> set (bin_and_limits hk)" unfolding bin_and_limits_def .
    from maps_fold_skip[OF this sk]
    have "Maps_Skip ?b (np_std (masked (column ''FP'' (hk_df hk)) (bin_sel ?b hk))) (hk_FSCfull hk ?b)
                 \<in> set (snd (snd (calc_maps B True hk)))"
      unfolding calc_maps_parts by simp
    with z show ?thesis by blast
  qed
  have 4: "\<not> skip_norm (norm_fo hk ?b) \<Longrightarrow>
              the (?outs (''DELFWT'' @ (if B = None then [] else ''_b0''))) ! i
                = raw_delfwt hk ?b i / cplx (norm_fo hk ?b)
            \<and> the (?outs (''FWT'' @ (if B = None then [] else ''_b0''))) ! i
                = raw_fwt hk ?b i / cplx (norm_fo hk ?b)"
  proof -
    assume ns: "\<not> skip_norm (norm_fo hk ?b)"
    show ?thesis
    proof (cases B)
      case None
      note a' = a[unfolded None]
      have "the (fst (snd (calc_maps None True hk)) ''DELFWT'') ! i = raw_delfwt hk ?b i / cplx (norm_fo hk ?b)"
        by (rule at_rec_the) (simp only: a' rec_maps_norm_None[OF ns])
      moreover have "the (fst (snd (calc_maps None True hk)) ''FWT'') ! i = raw_fwt hk ?b i / cplx (norm_fo hk ?b)"
        by (rule at_rec_the) (simp only: a' rec_maps_norm_None[OF ns])
      ultimately show ?thesis unfolding None by simp
    next
      case (Some bb)
      note a' = a[unfolded Some]
      have "the (fst (snd (calc_maps (Some bb) True hk)) ''DELFWT_b0'') ! i = raw_delfwt hk ?b i / cplx (norm_fo hk ?b)"
        by (rule at_rec_the) (simp only: a' rec_maps_norm_Some[OF ns])
      moreover have "the (fst (snd (calc_maps (Some bb) True hk)) ''FWT_b0'') ! i = raw_fwt hk ?b i / cplx (norm_fo hk ?b)"
        by (rule at_rec_the) (simp only: a' rec_maps_norm_Some[OF ns])
      ultimately show ?thesis unfolding Some by simp
    qed
  qed
  from 1 2 3 4 show ?thesis unfolding skip_norm_iff[symmetric] by blast
qed

theorem calc_maps_normalization_witness:
  "the (fst (snd (calc_maps None True hk_maps_example)) ''DELFWT'') ! 0 = Num (1 / 2)
   \<and> the (fst (snd (calc_maps None True hk_maps_example)) ''FWT'') ! 0 = Num (5 / 2)
   \<and> the (fst (snd (calc_maps None True hk_maps_example)) ''DELFWT'') ! 2 = Num 0
   \<and> the (fst (snd (calc_maps None True hk_maps_example)) ''FWT'') ! 2 = Num 0
   \<and> Maps_Skip 2 (Num 0) (Num 1) \<in> set (snd (snd (calc_maps None True hk_maps_example)))"
proof -
  have h0: "0 < length (hk_df hk_maps_example)" by (simp add: maps_example_eval)
  have h2: "2 < length (hk_df hk_maps_example)" by (simp add: maps_example_eval)
  have s0: "(r_bin (hk_df hk_maps_example ! 0), 2, 2) \<in> set (hk_shells hk_maps_example)"
    by (simp add: maps_example_eval)
  have s2: "(r_bin (hk_df hk_maps_example ! 2), 1, 1) \<in> set (hk_shells hk_maps_example)"
    by (simp add: maps_example_eval)
  from calc_maps_normalization[OF maps_example_eval(1) h0 s0, of None]
  have a: "the (fst (snd (calc_maps None True hk_maps_example)) ''DELFWT'') ! 0 = Num (1 / 2)
         \<and> the (fst (snd (calc_maps None True hk_maps_example)) ''FWT'') ! 0 = Num (5 / 2)"
    by (simp add: maps_example_eval norm_example raw_example)
  from calc_maps_normalization[OF maps_example_eval(1) h2 s2, of None]
  have b: "the (fst (snd (calc_maps None True hk_maps_example)) ''DELFWT'') ! 2 = Num 0
         \<and> the (fst (snd (calc_maps None True hk_maps_example)) ''FWT'') ! 2 = Num 0
         \<and> Maps_Skip 2 (Num 0) (Num 1) \<in> set (snd (snd (calc_maps None True hk_maps_example)))"
    by (simp add: maps_example_eval norm_example std_eval maps_labs_def)
  from a b show ?thesis by simp
qed

text \<open>C9, as the code has it: with half maps and a value \<open>B\<close> all six labels are returned.
  For every record of a shell that is not skipped (its normalisation factor \<open>n\<close> is a number
  not below \<open>1e-10\<close>), with \<open>s2 = 1/d**2\<close>, \<open>k = exp(-B s2/4)\<close>, \<open>k2 = exp(-B s2/2)\<close> and
  \<open>Sl = S k2\<close>: \<open>DELFWT = (Fo - D Fc) S k / ((Sl + varn) n)\<close> and
  \<open>FWT = (Fo Sl + varn D Fc) / ((Sl + varn) n k)\<close>, the pair without \<open>B\<close> is kept under
  \<open>DELFWT_b0\<close> and \<open>FWT_b0\<close>, and the rescaled correlation
  \<open>FSCl = k2 FSCfull / (1 + (k2 - 1) FSCfull)\<close> enters the log line of the shell through its
  mean. For every record of a skipped shell the loop continues before the \<open>B\<close> block, and
  both pairs stay zero.\<close>

theorem calc_maps_B_branch:
  assumes "distinct (map fst (hk_shells hk))" and "i < length (hk_df hk)"
    and "(r_bin (hk_df hk ! i), d_max, d_min) \<in> set (hk_shells hk)"
  shows "fst (calc_maps (Some bb) True hk)
           = [''DELFWT'', ''FWT'', ''DELFWT_noscale'', ''FWT_noscale'', ''DELFWT_b0'', ''FWT_b0'']
       \<and> (\<not> (norm_fo hk (r_bin (hk_df hk ! i)) = NaN
               \<or> (\<exists>v. norm_fo hk (r_bin (hk_df hk ! i)) = Num v \<and> v < 1 / 10 ^ 10)) \<longrightarrow>
            the (fst (snd (calc_maps (Some bb) True hk)) ''DELFWT'') ! i
              = (Num (column ''FP'' (hk_df hk) ! i)
                   - cplx (hk_D hk (r_bin (hk_df hk ! i))) * Num (column ''FC'' (hk_df hk) ! i))
                  * cplx (hk_S hk (r_bin (hk_df hk ! i)))
                  * cplx (atten 4 bb (r_d (hk_df hk ! i)))
                  / cplx ((hk_S hk (r_bin (hk_df hk ! i)) * atten 2 bb (r_d (hk_df hk ! i))
                             + hk_var_noise hk (r_bin (hk_df hk ! i)))
                          * norm_fo hk (r_bin (hk_df hk ! i)))
          \<and> the (fst (snd (calc_maps (Some bb) True hk)) ''FWT'') ! i
              = (Num (column ''FP'' (hk_df hk) ! i)
                     * cplx (hk_S hk (r_bin (hk_df hk ! i)) * atten 2 bb (r_d (hk_df hk ! i)))
                   + cplx (hk_var_noise hk (r_bin (hk_df hk ! i))) * cplx (hk_D hk (r_bin (hk_df hk ! i)))
                       * Num (column ''FC'' (hk_df hk) ! i))
                  / cplx ((hk_S hk (r_bin (hk_df hk ! i)) * atten 2 bb (r_d (hk_df hk ! i))
                             + hk_var_noise hk (r_bin (hk_df hk ! i)))
                          * norm_fo hk (r_bin (hk_df hk ! i))
                          * atten 4 bb (r_d (hk_df hk ! i)))
          \<and> the (fst (snd (calc_maps (Some bb) True hk)) ''DELFWT_b0'') ! i
              = raw_delfwt hk (r_bin (hk_df hk ! i)) i / cplx (norm_fo hk (r_bin (hk_df hk ! i)))
          \<and> the (fst (snd (calc_maps (Some bb) True hk)) ''FWT_b0'') ! i
              = raw_fwt hk (r_bin (hk_df hk ! i)) i / cplx (norm_fo hk (r_bin (hk_df hk ! i)))
          \<and> (\<exists>u v. Maps_Row (r_bin (hk_df hk ! i)) (norm_fo hk (r_bin (hk_df hk ! i)))
                (np_std (masked (column ''FP'' (hk_df hk)) (bin_sel (r_bin (hk_df hk ! i)) hk)))
                (np_average (map (\<lambda>d. atten 2 bb d * hk_FSCfull hk (r_bin (hk_df hk ! i))
                                        / (Num 1 + (atten 2 bb d - Num 1) * hk_FSCfull hk (r_bin (hk_df hk ! i))))
                               (masked (map r_d (hk_df hk)) (bin_sel (r_bin (hk_df hk ! i)) hk))))
                (np_average (map (atten 4 bb) (masked (map r_d (hk_df hk)) (bin_sel (r_bin (hk_df hk ! i)) hk))))
                u v
              \<in> set (snd (snd (calc_maps (Some bb) True hk)))))
       \<and> (norm_fo hk (r_bin (hk_df hk ! i)) = NaN
               \<or> (\<exists>v. norm_fo hk (r_bin (hk_df hk ! i)) = Num v \<and> v < 1 / 10 ^ 10) \<longrightarrow>
            the (fst (snd (calc_maps (Some bb) True hk)) ''DELFWT'') ! i = Num 0
          \<and> the (fst (snd (calc_maps (Some bb) True hk)) ''FWT'') ! i = Num 0
          \<and> the (fst (snd (calc_maps (Some bb) True hk)) ''DELFWT_b0'') ! i = Num 0
          \<and> the (fst (snd (calc_maps (Some bb) True hk)) ''FWT_b0'') ! i = Num 0)"
proof -
  let ?b = "r_bin (hk_df hk ! i)"
  let ?outs = "fst (snd (calc_maps (Some bb) True hk))"
  note a = calc_maps_at[OF assms(1,2,3), of "Some bb" True]
  have 0: "fst (calc_maps (Some bb) True hk)
           = [''DELFWT'', ''FWT'', ''DELFWT_noscale'', ''FWT_noscale'', ''DELFWT_b0'', ''FWT_b0'']"
    unfolding calc_maps_parts maps_labs_def by simp
  have n: "\<not> skip_norm (norm_fo hk ?b) \<Longrightarrow>
            the (?outs ''DELFWT'') ! i
              = (Num (column ''FP'' (hk_df hk) ! i) - cplx (hk_D hk ?b) * Num (column ''FC'' (hk_df hk) ! i))
                  * cplx (hk_S hk ?b) * cplx (atten 4 bb (r_d (hk_df hk ! i)))
                  / cplx ((hk_S hk ?b * atten 2 bb (r_d (hk_df hk ! i)) + hk_var_noise hk ?b) * norm_fo hk ?b)
          \<and> the (?outs ''FWT'') ! i
              = (Num (column ''FP'' (hk_df hk) ! i) * cplx (hk_S hk ?b * atten 2 bb (r_d (hk_df hk ! i)))
                   + cplx (hk_var_noise hk ?b) * cplx (hk_D hk ?b) * Num (column ''FC'' (hk_df hk) ! i))
                  / cplx ((hk_S hk ?b * atten 2 bb (r_d (hk_df hk ! i)) + hk_var_noise hk ?b)
                          * norm_fo hk ?b * atten 4 bb (r_d (hk_df hk ! i)))
          \<and> the (?outs ''DELFWT_b0'') ! i = raw_delfwt hk ?b i / cplx (norm_fo hk ?b)
          \<and> the (?outs ''FWT_b0'') ! i = raw_fwt hk ?b i / cplx (norm_fo hk ?b)
          \<and> (\<exists>u v. Maps_Row ?b (norm_fo hk ?b)
                (np_std (masked (column ''FP'' (hk_df hk)) (bin_sel ?b hk)))
                (np_average (map (\<lambda>d. atten 2 bb d * hk_FSCfull hk ?b
                                        / (Num 1 + (atten 2 bb d - Num 1) * hk_FSCfull hk ?b))
                               (masked (map r_d (hk_df hk)) (bin_sel ?b hk))))
                (np_average (map (atten 4 bb) (masked (map r_d (hk_df hk)) (bin_sel ?b hk))))
                u v
              \<in> set (snd (snd (calc_maps (Some bb) True hk))))"
  proof -
    assume ns: "\<not> skip_norm (norm_fo hk ?b)"
    have 1: "the (?outs ''DELFWT'') ! i
           = (Num (column ''FP'' (hk_df hk) ! i) - cplx (hk_D hk ?b) * Num (column ''FC'' (hk_df hk) ! i))
               * cplx (hk_S hk ?b) * cplx (atten 4 bb (r_d (hk_df hk ! i)))
               / cplx ((hk_S hk ?b * atten 2 bb (r_d (hk_df hk ! i)) + hk_var_noise hk ?b) * norm_fo hk ?b)"
      unfolding cplx_mult fl_div_div[symmetric] atten_def
      by (rule at_rec_the) (simp only: a rec_maps_norm_Some[OF ns] cplx_mult)
    have 2: "the (?outs ''FWT'') ! i
           = (Num (column ''FP'' (hk_df hk) ! i) * cplx (hk_S hk ?b * atten 2 bb (r_d (hk_df hk ! i)))
                + cplx (hk_var_noise hk ?b) * cplx (hk_D hk ?b) * Num (column ''FC'' (hk_df hk) ! i))
               / cplx ((hk_S hk ?b * atten 2 bb (r_d (hk_df hk ! i)) + hk_var_noise hk ?b)
                       * norm_fo hk ?b * atten 4 bb (r_d (hk_df hk ! i)))"
      unfolding cplx_mult fl_div_div[symmetric] atten_def
      by (rule at_rec_the) (simp only: a rec_maps_norm_Some[OF ns] cplx_mult)
    have 3: "the (?outs ''DELFWT_b0'') ! i = raw_delfwt hk ?b i / cplx (norm_fo hk ?b)"
      by (rule at_rec_the) (simp only: a rec_maps_norm_Some[OF ns])
    have 4: "the (?outs ''FWT_b0'') ! i = raw_fwt hk ?b i / cplx (norm_fo hk ?b)"
      by (rule at_rec_the) (simp only: a rec_maps_norm_Some[OF ns])
    from assms(3) have "(?b, d_max, d_min) \<in> set (bin_and_limits hk)" unfolding bin_and_limits_def .
    from maps_fold_row[OF this ns, of bb]
    have 5: "\<exists>u v. Maps_Row ?b (norm_fo hk ?b)
             (np_std (masked (column ''FP'' (hk_df hk)) (bin_sel ?b hk)))
             (np_average (map (\<lambda>d. atten 2 bb d * hk_FSCfull hk ?b
                                     / (Num 1 + (atten 2 bb d - Num 1) * hk_FSCfull hk ?b))
                            (masked (map r_d (hk_df hk)) (bin_sel ?b hk))))
             (np_average (map (atten 4 bb) (masked (map r_d (hk_df hk)) (bin_sel ?b hk))))
             u v
           \<in> set (snd (snd (calc_maps (Some bb) True hk)))"
      unfolding calc_maps_parts by auto
    from 1 2 3 4 5 show ?thesis by (intro conjI)
  qed
  have s: "skip_norm (norm_fo hk ?b) \<Longrightarrow>
            the (?outs ''DELFWT'') ! i = Num 0 \<and> the (?outs ''FWT'') ! i = Num 0
          \<and> the (?outs ''DELFWT_b0'') ! i = Num 0 \<and> the (?outs ''FWT_b0'') ! i = Num 0"
  proof -
    assume sk: "skip_norm (norm_fo hk ?b)"
    have z: "\<And>l. l \<in> set (maps_labs (Some bb) True) \<Longrightarrow> l \<noteq> ''DELFWT_noscale'' \<Longrightarrow> l \<noteq> ''FWT_noscale'' \<Longrightarrow>
                 the (?outs l) ! i = Num 0"
    proof -
      fix l assume "l \<in> set (maps_labs (Some bb) True)" "l \<noteq> ''DELFWT_noscale''" "l \<noteq> ''FWT_noscale''"
      then have "rec_maps (Some bb) True hk ?b i (zeros_rec (maps_labs (Some bb) True)) l = Some (Num 0)"
        unfolding rec_maps_skip[OF sk] by simp
      then show "the (?outs l) ! i = Num 0"
        by (intro at_rec_the) (simp only: a)
    qed
    show ?thesis by (intro conjI z) (simp_all add: maps_labs_def)
  qed
  from 0 n s show ?thesis unfolding skip_norm_iff[symmetric] by blast
qed

theorem calc_maps_B_branch_witness:
  "the (fst (snd (calc_maps (Some 4) True hk_B_example)) ''DELFWT'') ! 0
      = Num (complex_of_real (exp (- 1) / (exp (- 2) + 1)))
   \<and> the (fst (snd (calc_maps (Some 4) True hk_B_example)) ''FWT'') ! 0
      = Num (complex_of_real ((3 * exp (- 2) + 2) / ((exp (- 2) + 1) * exp (- 1))))
   \<and> the (fst (snd (calc_maps (Some 4) True hk_B_example)) ''DELFWT_b0'') ! 0 = Num (1 / 2)
   \<and> the (fst (snd (calc_maps (Some 4) True hk_B_example)) ''FWT_b0'') ! 0 = Num (5 / 2)
   \<and> the (fst (snd (calc_maps (Some 4) True hk_B_example)) ''DELFWT'') ! 2 = Num 0
   \<and> the (fst (snd (calc_maps (Some 4) True hk_B_example)) ''FWT'') ! 2 = Num 0
   \<and> the (fst (snd (calc_maps (Some 4) True hk_B_example)) ''DELFWT_b0'') ! 2 = Num 0
   \<and> the (fst (snd (calc_maps (Some 4) True hk_B_example)) ''FWT_b0'') ! 2 = Num 0"
proof -
  have h0: "0 < length (hk_df hk_B_example)" by (simp add: B_example_eval)
  have h2: "2 < length (hk_df hk_B_example)" by (simp add: B_example_eval)
  have s0: "(r_bin (hk_df hk_B_example ! 0), 1, 1) \<in> set (hk_shells hk_B_example)"
    by (simp add: B_example_eval)
  have s2: "(r_bin (hk_df hk_B_example ! 2), 1 / 2, 1 / 2) \<in> set (hk_shells hk_B_example)"
    by (simp add: B_example_eval)
  have n0: "\<not> (norm_fo hk_B_example (r_bin (hk_df hk_B_example ! 0)) = NaN
            \<or> (\<exists>v. norm_fo hk_B_example (r_bin (hk_df hk_B_example ! 0)) = Num v \<and> v < 1 / 10 ^ 10))"
    by (simp add: B_example_eval norm_B_example)
  have n2: "norm_fo hk_B_example (r_bin (hk_df hk_B_example ! 2)) = NaN
            \<or> (\<exists>v. norm_fo hk_B_example (r_bin (hk_df hk_B_example ! 2)) = Num v \<and> v < 1 / 10 ^ 10)"
  proof -
    have "norm_fo hk_B_example (r_bin (hk_df hk_B_example ! 2)) = Num (1 / 10 ^ 11)"
      by (simp only: B_example_eval norm_B_example)
    moreover have "(1 / 10 ^ 11 :: real) < 1 / 10 ^ 10" by simp
    ultimately show ?thesis by blast
  qed
  note t0 = calc_maps_B_branch[OF B_example_eval(1) h0 s0, of 4]
  note t2 = calc_maps_B_branch[OF B_example_eval(1) h2 s2, of 4]
  note f0 = t0[THEN conjunct2, THEN conjunct1, THEN mp, OF n0,
               unfolded B_example_eval norm_B_example atten_eval raw_B_example B_values]
  note f2 = t2[THEN conjunct2, THEN conjunct2, THEN mp, OF n2]
  from f0 f2 show ?thesis by simp
qed

text \<open>The formulas do not hold for every record: in \<open>hk_B_example\<close> with \<open>B = 4\<close> the second
  shell is skipped, its first record has \<open>DELFWT = FWT = 0\<close>, and both formulas give a number
  other than zero there.\<close>

theorem calc_maps_B_branch_counterexample:
  "the (fst (snd (calc_maps (Some 4) True hk_B_example)) ''DELFWT'') ! 2 = Num 0
   \<and> (Num (column ''FP'' (hk_df hk_B_example) ! 2)
         - cplx (hk_D hk_B_example 2) * Num (column ''FC'' (hk_df hk_B_example) ! 2))
        * cplx (hk_S hk_B_example 2)
        * cplx (atten 4 4 (r_d (hk_df hk_B_example ! 2)))
        / cplx ((hk_S hk_B_example 2 * atten 2 4 (r_d (hk_df hk_B_example ! 2))
                   + hk_var_noise hk_B_example 2)
                * norm_fo hk_B_example 2)
       \<noteq> Num 0
   \<and> the (fst (snd (calc_maps (Some 4) True hk_B_example)) ''FWT'') ! 2 = Num 0
   \<and> (Num (column ''FP'' (hk_df hk_B_example) ! 2)
           * cplx (hk_S hk_B_example 2 * atten 2 4 (r_d (hk_df hk_B_example ! 2)))
         + cplx (hk_var_noise hk_B_example 2) * cplx (hk_D hk_B_example 2)
             * Num (column ''FC'' (hk_df hk_B_example) ! 2))
        / cplx ((hk_S hk_B_example 2 * atten 2 4 (r_d (hk_df hk_B_example ! 2))
                   + hk_var_noise hk_B_example 2)
                * norm_fo hk_B_example 2
                * atten 4 4 (r_d (hk_df hk_B_example ! 2)))
       \<noteq> Num 0"
proof -
  have h2: "2 < length (hk_df hk_B_example)" by (simp add: B_example_eval)
  have s2: "(r_bin (hk_df hk_B_example ! 2), 1 / 2, 1 / 2) \<in> set (hk_shells hk_B_example)"
    by (simp add: B_example_eval)
  have sk: "skip_norm (norm_fo hk_B_example 2)" by (simp add: norm_B_example)
  note a = calc_maps_at[OF B_example_eval(1) h2 s2, of "Some 4" True, unfolded B_example_eval]
  have "rec_maps (Some 4) True hk_B_example 2 2 (zeros_rec (maps_labs (Some 4) True)) ''DELFWT'' = Some (Num 0)"
    unfolding rec_maps_skip[OF sk] by (simp add: maps_labs_def)
  then have o1: "the (fst (snd (calc_maps (Some 4) True hk_B_example)) ''DELFWT'') ! 2 = Num 0"
    by (intro at_rec_the) (simp only: a)
  have "rec_maps (Some 4) True hk_B_example 2 2 (zeros_rec (maps_labs (Some 4) True)) ''FWT'' = Some (Num 0)"
    unfolding rec_maps_skip[OF sk] by (simp add: maps_labs_def)
  then have o2: "the (fst (snd (calc_maps (Some 4) True hk_B_example)) ''FWT'') ! 2 = Num 0"
    by (intro at_rec_the) (simp only: a)
  have p: "exp (- 8 :: real) + 1 \<noteq> 0" using exp_gt_zero[of "- 8 :: real"] by linarith
  then have q: "complex_of_real (exp (- 8)) + 1 \<noteq> 0"
    by (metis of_real_1 of_real_add of_real_eq_0_iff)
  have p': "3 * exp (- 8 :: real) + 2 \<noteq> 0" using exp_gt_zero[of "- 8 :: real"] by linarith
  then have "complex_of_real (3 * exp (- 8) + 2) \<noteq> 0" by (simp only: of_real_eq_0_iff not_False_eq_True)
  then have q': "3 * complex_of_real (exp (- 8)) + 2 \<noteq> 0" by simp
  have "300000000000 * exp (- 8 :: real) + 200000000000 \<noteq> 0"
    using exp_gt_zero[of "- 8 :: real"] by linarith
  then have "complex_of_real (300000000000 * exp (- 8) + 200000000000) \<noteq> 0"
    by (simp only: of_real_eq_0_iff not_False_eq_True)
  then have q'': "300000000000 * complex_of_real (exp (- 8)) + 200000000000 \<noteq> 0" by simp
  have f1: "(Num (column ''FP'' (hk_df hk_B_example) ! 2)
         - cplx (hk_D hk_B_example 2) * Num (column ''FC'' (hk_df hk_B_example) ! 2))
        * cplx (hk_S hk_B_example 2)
        * cplx (atten 4 4 (r_d (hk_df hk_B_example ! 2)))
        / cplx ((hk_S hk_B_example 2 * atten 2 4 (r_d (hk_df hk_B_example ! 2))
                   + hk_var_noise hk_B_example 2)
                * norm_fo hk_B_example 2)
       \<noteq> Num 0"
    using p q by (simp add: B_example_eval norm_B_example atten_eval)
  have f2: "(Num (column ''FP'' (hk_df hk_B_example) ! 2)
           * cplx (hk_S hk_B_example 2 * atten 2 4 (r_d (hk_df hk_B_example ! 2)))
         + cplx (hk_var_noise hk_B_example 2) * cplx (hk_D hk_B_example 2)
             * Num (column ''FC'' (hk_df hk_B_example) ! 2))
        / cplx ((hk_S hk_B_example 2 * atten 2 4 (r_d (hk_df hk_B_example ! 2))
                   + hk_var_noise hk_B_example 2)
                * norm_fo hk_B_example 2
                * atten 4 4 (r_d (hk_df hk_B_example ! 2)))
       \<noteq> Num 0"
    using p q p' q' q'' by (simp add: B_example_eval norm_B_example atten_eval)
  from o1 f1 o2 f2 show ?thesis by (intro conjI)
qed

end
